theory Spec2Isabelle
  imports Main "HOL-Library.Word" "HOL-Library.Monad_Syntax"
begin

unbundle bit_operations_syntax

section \<open>The DNS message decoder of dns2tcp.go\<close>

text \<open>
  The decoder works on a Go byte slice and on Go \<open>int\<close> cursors. A byte is an
  \<open>8 word\<close>, the buffer a list of bytes, a cursor an \<open>int\<close> (buffers are far shorter
  than \<open>2 ^ 63\<close>, so cursor arithmetic never wraps and is written on unbounded integers).
  Every function of the decoder returns its Go result tuple inside \<open>option\<close>: the value
  \<open>None\<close> stands for a run-time panic of the Go program (an index or a slice bound out
  of range), so that each indexing operation of the source is a possible failure of the
  model. An \<open>error\<close> value of Go is a constructor of the datatype \<open>error\<close>, one for each
  message passed to \<open>errors.New\<close>; \<open>nil\<close> is \<open>None\<close> of \<open>error option\<close>. Calls to
  \<open>log.Printf\<close> only write to the log and are left out.
\<close>

type_synonym byte = "8 word"

datatype error =
    ReachedEndOfDataBuffer         \<comment> \<open>reached end of data buffer\<close>
  | LabelLengthExceedsDataBuffer   \<comment> \<open>label length exceeds data buffer\<close>
  | TooManyCompressionPointers     \<comment> \<open>too many compression pointers\<close>
  | IncompletePointerOffset        \<comment> \<open>incomplete pointer offset\<close>
  | InvalidPointerDestination      \<comment> \<open>invalid pointer destination\<close>
  | InvalidLabelType               \<comment> \<open>invalid label type\<close>
  | InsufficientDataForRRHeader    \<comment> \<open>insufficient data for RR header\<close>
  | RdataLengthExceedsDataBuffer   \<comment> \<open>rdata length exceeds data buffer\<close>
  | DataTooShortForDNSHeader       \<comment> \<open>data too short for DNS header\<close>
  | EOFParsingQuestions            \<comment> \<open>EOF parsing questions\<close>
  | InsufficientDataForQtypeQclass \<comment> \<open>insufficient data for Qtype/Qclass\<close>
  | EOFParsingAnswers              \<comment> \<open>EOF parsing answers\<close>
  | EOFParsingAuthorityRRs         \<comment> \<open>EOF parsing authority RRs\<close>
  | EOFParsingAdditionalRRs        \<comment> \<open>EOF parsing additional RRs\<close>

subsection \<open>Slices and big-endian reads\<close>

text \<open>\<open>data[i]\<close>: panics unless \<open>0 \<le> i < len(data)\<close>.\<close>

definition index :: "byte list \<Rightarrow> int \<Rightarrow> byte option" where
  "index data i =
     (if 0 \<le> i \<and> i < int (length data) then Some (data ! nat i) else None)"

text \<open>
  \<open>data[lo:hi]\<close> and \<open>data[lo:]\<close>. Go allows \<open>hi\<close> up to the capacity of the slice; the
  model has no capacity and panics as soon as \<open>hi\<close> passes the length, which is the
  stricter reading.
\<close>

definition slice :: "byte list \<Rightarrow> int \<Rightarrow> int \<Rightarrow> byte list option" where
  "slice data lo hi =
     (if 0 \<le> lo \<and> lo \<le> hi \<and> hi \<le> int (length data)
      then Some (take (nat (hi - lo)) (drop (nat lo) data)) else None)"

definition slice_from :: "byte list \<Rightarrow> int \<Rightarrow> byte list option" where
  "slice_from data lo = slice data lo (int (length data))"

text \<open>
  \<open>binary.BigEndian.Uint16(b)\<close> and \<open>binary.BigEndian.Uint32(b)\<close> of the Go library:
  they index \<open>b[1]\<close> (\<open>b[3]\<close>) first, which panics on a shorter slice, and then combine
  the bytes, the first one the most significant.
\<close>

definition Uint16 :: "byte list \<Rightarrow> 16 word option" where
  "Uint16 b =
     (if length b < 2 then None
      else Some (push_bit 8 (ucast (b ! 0)) OR ucast (b ! 1)))"

definition Uint32 :: "byte list \<Rightarrow> 32 word option" where
  "Uint32 b =
     (if length b < 4 then None
      else Some (push_bit 24 (ucast (b ! 0)) OR push_bit 16 (ucast (b ! 1))
                 OR push_bit 8 (ucast (b ! 2)) OR ucast (b ! 3)))"

text \<open>
  The reads \<open>binary.BigEndian.Uint16(data[i:])\<close> and \<open>binary.BigEndian.Uint32(data[i:])\<close>
  of the decoder: the slice expression first, then the library function.
\<close>

definition Uint16_at :: "byte list \<Rightarrow> int \<Rightarrow> 16 word option" where
  "Uint16_at data i = slice_from data i \<bind> Uint16"

definition Uint32_at :: "byte list \<Rightarrow> int \<Rightarrow> 32 word option" where
  "Uint32_at data i = slice_from data i \<bind> Uint32"

text \<open>\<open>string(bytes)\<close>: a Go string is the same byte sequence.\<close>

definition string_of_bytes :: "byte list \<Rightarrow> string" where
  "string_of_bytes bs = map (\<lambda>b. char_of (unat b)) bs"

text \<open>\<open>strings.Join(elems, sep)\<close>.\<close>

fun Join :: "string list \<Rightarrow> string \<Rightarrow> string" where
  "Join [] sep = []"
| "Join [x] sep = x"
| "Join (x # y # ys) sep = x @ sep @ Join (y # ys) sep"

subsection \<open>getDomainName\<close>

text \<open>The local variables of \<open>getDomainName\<close> that live across loop iterations.\<close>

record gdn_state =
  labels :: "string list"
  currentReadPos :: int
  pointerFollowCount :: nat
  posAfterFirstPointer :: int

text \<open>
  How one run of the loop body ends: at the bottom of the body (\<open>Continue\<close>), at the
  \<open>break\<close> of the terminating zero byte, or at one of the \<open>return\<close> statements inside
  the loop, with the returned triple.
\<close>

datatype ctl =
    Continue gdn_state
  | Break gdn_state
  | Return "string \<times> int \<times> error option"

definition gdn_body :: "byte list \<Rightarrow> int \<Rightarrow> gdn_state \<Rightarrow> ctl option" where
  "gdn_body data initialCursor s0 =
     (if currentReadPos s0 \<ge> int (length data)
      then Some (Return ('''', initialCursor, Some ReachedEndOfDataBuffer))
      else do {
        labelSize \<leftarrow> index data (currentReadPos s0);
        let s = s0\<lparr>currentReadPos := currentReadPos s0 + 1\<rparr>;
        if labelSize = 0 then Some (Break s)
        else if labelSize AND 0xC0 = 0x00 then
          (if currentReadPos s + uint labelSize > int (length data)
           then Some (Return ('''', initialCursor, Some LabelLengthExceedsDataBuffer))
           else do {
             label \<leftarrow> slice data (currentReadPos s) (currentReadPos s + uint labelSize);
             Some (Continue (s\<lparr>labels := labels s @ [string_of_bytes label],
                                currentReadPos := currentReadPos s + uint labelSize\<rparr>))
           })
        else if labelSize AND 0xC0 = 0xC0 then
          (let s1 = (if pointerFollowCount s = 0
                     then s\<lparr>posAfterFirstPointer := currentReadPos s + 1\<rparr> else s);
               s2 = s1\<lparr>pointerFollowCount := pointerFollowCount s1 + 1\<rparr>
           in if pointerFollowCount s2 > 10
              then Some (Return (''Too many compression pointers'',
                                 (if posAfterFirstPointer s2 \<noteq> 0
                                  then posAfterFirstPointer s2 else initialCursor),
                                 Some TooManyCompressionPointers))
              else if currentReadPos s2 \<ge> int (length data)
              then Some (Return ('''', initialCursor, Some IncompletePointerOffset))
              else do {
                secondByte \<leftarrow> index data (currentReadPos s2);
                let pointerDestination =
                      push_bit 8 (uint labelSize AND 0x3F) OR uint secondByte;
                if pointerDestination < 0 \<or> pointerDestination \<ge> int (length data)
                then Some (Return ('''', initialCursor, Some InvalidPointerDestination))
                else Some (Continue (s2\<lparr>currentReadPos := pointerDestination\<rparr>))
              })
        else Some (Return ('''', initialCursor, Some InvalidLabelType))
      })"

text \<open>The code after the loop, reached by \<open>break\<close>.\<close>

definition gdn_finish :: "gdn_state \<Rightarrow> string \<times> int \<times> error option" where
  "gdn_finish s =
     (let name = Join (labels s) ''.''
      in if pointerFollowCount s > 0 then (name, posAfterFirstPointer s, None)
         else (name, currentReadPos s, None))"

text \<open>
  The \<open>for\<close> loop. It has no condition: it runs until the body breaks or returns. A label
  moves the read position towards the end of the buffer and a pointer raises the hop
  count, which is what the termination proof measures.
\<close>

function gdn_loop :: "byte list \<Rightarrow> int \<Rightarrow> gdn_state \<Rightarrow> (string \<times> int \<times> error option) option" where
  "gdn_loop data initialCursor s =
     (case gdn_body data initialCursor s of
        None \<Rightarrow> None
      | Some (Return r) \<Rightarrow> Some r
      | Some (Break s') \<Rightarrow> Some (gdn_finish s')
      | Some (Continue s') \<Rightarrow> gdn_loop data initialCursor s')"
  by pat_completeness auto

termination gdn_loop
proof (relation "measures [\<lambda>(d, i, s). 11 - pointerFollowCount s,
                           \<lambda>(d, i, s). nat (int (length d) - currentReadPos s)]")
  show "wf (measures [\<lambda>(d, i, s). 11 - pointerFollowCount s,
                      \<lambda>(d, i, s). nat (int (length d) - currentReadPos s)])"
    by simp
next
  fix data :: "byte list" and initialCursor :: int and s s' :: gdn_state and c :: ctl
  assume "gdn_body data initialCursor s = Some c" and "c = Continue s'"
  then have body: "gdn_body data initialCursor s = Some (Continue s')"
    by simp
  have pos: "0 < uint w" if "w \<noteq> 0" for w :: byte
    using that uint_0_iff [of w] uint_ge_0 [of w] by linarith
  have "(pointerFollowCount s' = pointerFollowCount s
           \<and> currentReadPos s < currentReadPos s'
           \<and> currentReadPos s' \<le> int (length data))
        \<or> (pointerFollowCount s' = Suc (pointerFollowCount s)
           \<and> pointerFollowCount s < 10)"
    using body
    by (auto simp: gdn_body_def Let_def index_def slice_def dest: pos
             split: if_splits Option.bind_splits)
  then show "((data, initialCursor, s'), (data, initialCursor, s))
       \<in> measures [\<lambda>(d, i, s). 11 - pointerFollowCount s,
                   \<lambda>(d, i, s). nat (int (length d) - currentReadPos s)]"
    by auto
qed

declare gdn_loop.simps [simp del]

definition gdn_init :: "int \<Rightarrow> gdn_state" where
  "gdn_init initialCursor =
     \<lparr>labels = [], currentReadPos = initialCursor,
      pointerFollowCount = 0, posAfterFirstPointer = 0\<rparr>"

definition getDomainName :: "byte list \<Rightarrow> int \<Rightarrow> (string \<times> int \<times> error option) option" where
  "getDomainName data initialCursor = gdn_loop data initialCursor (gdn_init initialCursor)"

text \<open>
  The state of the loop after \<open>n\<close> complete runs of the body, when none of them has
  left the loop: the positions and hop counts that a call of \<open>getDomainName\<close> goes
  through. It is used to say where the decoder meets a byte.
\<close>

fun gdn_iter :: "byte list \<Rightarrow> int \<Rightarrow> nat \<Rightarrow> gdn_state \<Rightarrow> gdn_state option" where
  "gdn_iter data initialCursor 0 s = Some s"
| "gdn_iter data initialCursor (Suc n) s =
     (case gdn_body data initialCursor s of
        Some (Continue s') \<Rightarrow> gdn_iter data initialCursor n s'
      | _ \<Rightarrow> None)"

text \<open>The destination of a pointer, as the body computes it from the two bytes.\<close>

definition ptr_dest :: "byte \<Rightarrow> byte \<Rightarrow> int" where
  "ptr_dest b1 b2 = push_bit 8 (uint b1 AND 0x3F) OR uint b2"

subsection \<open>The decoded message\<close>

text \<open>
  The structs of the source. Go's \<open>uint\<close> is taken at 64 bits. The field \<open>id\<close> is
  \<open>id'\<close> here, and the \<open>Name\<close> fields of the two record types are \<open>QName\<close> and
  \<open>RName\<close>, since a record field is a constant of its own.
\<close>

record dnsMsgHdr =
  id' :: "16 word"
  response :: bool
  opcode :: "64 word"
  authoritative :: bool
  truncated :: bool
  recursion_desired :: bool
  recursion_available :: bool
  rcode :: "64 word"
  question_num :: "16 word"
  answer_num :: "16 word"
  authority_num :: "16 word"
  additional_num :: "16 word"

record dnsQuestion =
  QName :: string
  Qtype :: "16 word"
  Qclass :: "16 word"

record dnsRR =
  RName :: string
  Rrtype :: "16 word"
  Class :: "16 word"
  Ttl :: "32 word"
  Rdlength :: "16 word"
  Data :: "byte list"

record dnsMsg = dnsMsgHdr +
  question :: "dnsQuestion list"
  answer :: "dnsRR list"
  ns :: "dnsRR list"
  extra :: "dnsRR list"

text \<open>The zero values that \<open>var\<close> and \<open>make\<close> give.\<close>

definition zero_dnsQuestion :: dnsQuestion where
  "zero_dnsQuestion = \<lparr>QName = [], Qtype = 0, Qclass = 0\<rparr>"

definition zero_dnsRR :: dnsRR where
  "zero_dnsRR = \<lparr>RName = [], Rrtype = 0, Class = 0, Ttl = 0, Rdlength = 0, Data = []\<rparr>"

definition zero_dnsMsg :: dnsMsg where
  "zero_dnsMsg =
     \<lparr>id' = 0, response = False, opcode = 0, authoritative = False, truncated = False,
      recursion_desired = False, recursion_available = False, rcode = 0,
      question_num = 0, answer_num = 0, authority_num = 0, additional_num = 0,
      question = [], answer = [], ns = [], extra = []\<rparr>"

definition Itob :: "16 word \<Rightarrow> bool" where
  "Itob x = (if x = 0 then False else True)"

text \<open>\<open>copy(dst, src)\<close> overwrites the first \<open>min(len(dst), len(src))\<close> elements.\<close>

definition copy :: "byte list \<Rightarrow> byte list \<Rightarrow> byte list" where
  "copy dst src = take (length dst) src @ drop (length src) dst"

subsection \<open>parseRR\<close>

definition parseRR :: "byte list \<Rightarrow> int \<Rightarrow> (dnsRR \<times> int \<times> error option) option" where
  "parseRR data cursor0 = do {
     (name, cursor, err) \<leftarrow> getDomainName data cursor0;
     let rr = zero_dnsRR\<lparr>RName := name\<rparr>;
     if err \<noteq> None then Some (rr, cursor, err)
     else if cursor + 10 > int (length data)
     then Some (rr, cursor, Some InsufficientDataForRRHeader)
     else do {
       rrtype \<leftarrow> Uint16_at data cursor;
       let rr = rr\<lparr>Rrtype := rrtype\<rparr>;
       let cursor = cursor + 2;
       class \<leftarrow> Uint16_at data cursor;
       let rr = rr\<lparr>Class := class\<rparr>;
       let cursor = cursor + 2;
       ttl \<leftarrow> Uint32_at data cursor;
       let rr = rr\<lparr>Ttl := ttl\<rparr>;
       let cursor = cursor + 4;
       rdlength \<leftarrow> Uint16_at data cursor;
       let rr = rr\<lparr>Rdlength := rdlength\<rparr>;
       let cursor = cursor + 2;
       if cursor + uint (Rdlength rr) > int (length data)
       then Some (rr, cursor, Some RdataLengthExceedsDataBuffer)
       else do {
         src \<leftarrow> slice data cursor (cursor + uint (Rdlength rr));
         let Data = copy (replicate (unat (Rdlength rr)) 0) src;
         let rr = rr\<lparr>Data := Data\<rparr>;
         let cursor = cursor + uint (Rdlength rr);
         Some (rr, cursor, None)
       }
     }
   }"

subsection \<open>parseDNSMsg\<close>

text \<open>
  The question loop, from index \<open>i\<close> up to the count \<open>n\<close>, over the slice \<open>question\<close>
  (here \<open>qs\<close>) that \<open>make\<close> has filled with \<open>n\<close> zero values: an index \<open>i < n\<close> is
  inside it. The loop returns the slice, the cursor and the error with which
  \<open>parseDNSMsg\<close> returns from inside the loop (\<open>None\<close> when the loop runs to its end).
\<close>

function question_loop ::
  "byte list \<Rightarrow> nat \<Rightarrow> nat \<Rightarrow> dnsQuestion list \<Rightarrow> int
     \<Rightarrow> (dnsQuestion list \<times> int \<times> error option) option" where
  "question_loop data n i qs cursor0 =
     (if i < n then
        (if cursor0 \<ge> int (length data)
         then Some (qs, cursor0, Some EOFParsingQuestions)
         else do {
           (name, cursor, err) \<leftarrow> getDomainName data cursor0;
           let qs = qs[i := (qs ! i)\<lparr>QName := name\<rparr>];
           if err \<noteq> None then Some (qs, cursor, err)
           else if cursor + 4 > int (length data)
           then Some (qs, cursor, Some InsufficientDataForQtypeQclass)
           else do {
             qtype \<leftarrow> Uint16_at data cursor;
             let qs = qs[i := (qs ! i)\<lparr>Qtype := qtype\<rparr>];
             let cursor = cursor + 2;
             qclass \<leftarrow> Uint16_at data cursor;
             let qs = qs[i := (qs ! i)\<lparr>Qclass := qclass\<rparr>];
             let cursor = cursor + 2;
             question_loop data n (i + 1) qs cursor
           }
         })
      else Some (qs, cursor0, None))"
  by pat_completeness auto
termination
  by (relation "measure (\<lambda>(data, n, i, qs, cursor). n - i)") auto

declare question_loop.simps [simp del]

text \<open>
  The loop over one resource-record section. The source writes it three times, for the
  answer, authority and additional sections; the copies differ in the slice they fill
  and in the error \<open>eof\<close> of the end-of-buffer check only.
\<close>

function rr_loop ::
  "byte list \<Rightarrow> error \<Rightarrow> nat \<Rightarrow> nat \<Rightarrow> dnsRR list \<Rightarrow> int
     \<Rightarrow> (dnsRR list \<times> int \<times> error option) option" where
  "rr_loop data eof n i rrs cursor0 =
     (if i < n then
        (if cursor0 \<ge> int (length data)
         then Some (rrs, cursor0, Some eof)
         else do {
           (rr, cursor, err) \<leftarrow> parseRR data cursor0;
           let rrs = rrs[i := rr];
           if err \<noteq> None then Some (rrs, cursor, err)
           else rr_loop data eof n (i + 1) rrs cursor
         })
      else Some (rrs, cursor0, None))"
  by pat_completeness auto
termination
  by (relation "measure (\<lambda>(data, eof, n, i, rrs, cursor). n - i)") auto

declare rr_loop.simps [simp del]

text \<open>
  One \<open>if count > 0 { ... }\<close> block of \<open>parseDNSMsg\<close>: it allocates the slice, runs the
  loop and returns the filled slice. With a count of zero the field of the message stays
  \<open>nil\<close>, the empty slice.
\<close>

definition rr_section ::
  "byte list \<Rightarrow> error \<Rightarrow> 16 word \<Rightarrow> int \<Rightarrow> (dnsRR list \<times> int \<times> error option) option" where
  "rr_section data eof num cursor =
     (if num > 0
      then rr_loop data eof (unat num) 0 (replicate (unat num) zero_dnsRR) cursor
      else Some ([], cursor, None))"

text \<open>The header fields, lines 213 to 226 of the source, for a buffer of 12 bytes or more.\<close>

definition parse_header :: "byte list \<Rightarrow> dnsMsg option" where
  "parse_header data = do {
     ident \<leftarrow> Uint16 data;
     dnsmisc \<leftarrow> Uint16_at data 2;
     qn \<leftarrow> Uint16_at data 4;
     an \<leftarrow> Uint16_at data 6;
     nsn \<leftarrow> Uint16_at data 8;
     arn \<leftarrow> Uint16_at data 10;
     Some (zero_dnsMsg\<lparr>
       id' := ident,
       response := True,
       opcode := ucast (drop_bit 11 dnsmisc AND 0x000F),
       authoritative := Itob (drop_bit 10 (dnsmisc AND 0x0400)),
       truncated := Itob (drop_bit 9 (dnsmisc AND 0x0200)),
       recursion_desired := Itob (drop_bit 8 (dnsmisc AND 0x0100)),
       recursion_available := Itob (drop_bit 7 (dnsmisc AND 0x00F0)),
       rcode := ucast (dnsmisc AND 0x000F),
       question_num := qn,
       answer_num := an,
       authority_num := nsn,
       additional_num := arn\<rparr>)
   }"

definition parseDNSMsg :: "byte list \<Rightarrow> (dnsMsg \<times> error option) option" where
  "parseDNSMsg data =
     (if length data < 12 then Some (zero_dnsMsg, Some DataTooShortForDNSHeader)
      else do {
        msg \<leftarrow> parse_header data;
        (qs, cursor, err) \<leftarrow>
          question_loop data (unat (question_num msg)) 0
            (replicate (unat (question_num msg)) zero_dnsQuestion) 12;
        if err \<noteq> None then Some (msg, err)
        else do {
          let msg = msg\<lparr>question := qs\<rparr>;
          (rrs, cursor, err) \<leftarrow> rr_section data EOFParsingAnswers (answer_num msg) cursor;
          if err \<noteq> None then Some (msg, err)
          else do {
            let msg = msg\<lparr>answer := rrs\<rparr>;
            (rrs, cursor, err) \<leftarrow>
              rr_section data EOFParsingAuthorityRRs (authority_num msg) cursor;
            if err \<noteq> None then Some (msg, err)
            else do {
              let msg = msg\<lparr>ns := rrs\<rparr>;
              (rrs, cursor, err) \<leftarrow>
                rr_section data EOFParsingAdditionalRRs (additional_num msg) cursor;
              if err \<noteq> None then Some (msg, err)
              else Some (msg\<lparr>extra := rrs\<rparr>, None)
            }
          }
        }
      })"

subsection \<open>The decoding as the specification words it\<close>

text \<open>
  Section 4.2 of the specification describes the message decoder as a sequence of steps,
  of which each one succeeds or makes the whole decoding fail: for each of the question
  count entries a name, then four more bytes for type and class; for each record count in
  turn (answer, authority, additional) one resource record after the other, each read at
  the offset where the one before has ended. The three functions below follow these
  words. They use \<open>getDomainName\<close> and \<open>parseRR\<close> of the source for one name and one
  record, build the sequences front to back instead of filling an allocated slice, and
  return \<open>None\<close> as soon as a step fails, so that a result is a complete decoding.
  They are the reference with which the loops of \<open>parseDNSMsg\<close> are compared.
\<close>

fun decode_questions :: "byte list \<Rightarrow> nat \<Rightarrow> int \<Rightarrow> (dnsQuestion list \<times> int) option" where
  "decode_questions data 0 c = Some ([], c)"
| "decode_questions data (Suc k) c =
     (case getDomainName data c of
        Some (name, b, None) \<Rightarrow>
          (if b + 4 \<le> int (length data) then
             (case (Uint16_at data b, Uint16_at data (b + 2)) of
                (Some qtype, Some qclass) \<Rightarrow>
                  (case decode_questions data k (b + 4) of
                     Some (qs, c') \<Rightarrow>
                       Some (\<lparr>QName = name, Qtype = qtype, Qclass = qclass\<rparr> # qs, c')
                   | None \<Rightarrow> None)
              | _ \<Rightarrow> None)
           else None)
      | _ \<Rightarrow> None)"

fun decode_records :: "byte list \<Rightarrow> nat \<Rightarrow> int \<Rightarrow> (dnsRR list \<times> int) option" where
  "decode_records data 0 c = Some ([], c)"
| "decode_records data (Suc k) c =
     (case parseRR data c of
        Some (rr, b, None) \<Rightarrow>
          (case decode_records data k b of
             Some (rrs, c') \<Rightarrow> Some (rr # rrs, c')
           | None \<Rightarrow> None)
      | _ \<Rightarrow> None)"

text \<open>
  The whole message: the header, then the four sections in their order. The result
  carries the offset at which the last record ends.
\<close>

definition decode_message :: "byte list \<Rightarrow> (dnsMsg \<times> int) option" where
  "decode_message data =
     (if length data < 12 then None
      else do {
        hdr \<leftarrow> parse_header data;
        (qs, c1) \<leftarrow> decode_questions data (unat (question_num hdr)) 12;
        (an, c2) \<leftarrow> decode_records data (unat (answer_num hdr)) c1;
        (au, c3) \<leftarrow> decode_records data (unat (authority_num hdr)) c2;
        (ad, c4) \<leftarrow> decode_records data (unat (additional_num hdr)) c3;
        Some (hdr\<lparr>question := qs, answer := an, ns := au, extra := ad\<rparr>, c4)
      })"

subsection \<open>Test data\<close>

text \<open>The bytes of an ASCII string, for buffers written with their labels as text.\<close>

definition bytes_of :: "string \<Rightarrow> byte list" where
  "bytes_of s = map of_char s"

text \<open>The message of \<open>TestParseDNSMsgWithCompression\<close> in \<open>dns2tcp_test.go\<close>.\<close>

definition dnsMessageBytes :: "byte list" where
  "dnsMessageBytes =
     [0x12, 0x34, 0x81, 0x80, 0x00, 0x01, 0x00, 0x02, 0x00, 0x00, 0x00, 0x00]
     @ [0x04] @ bytes_of ''test'' @ [0x07] @ bytes_of ''example'' @ [0x03] @ bytes_of ''com''
     @ [0x00, 0x00, 0x01, 0x00, 0x01]
     @ [0x04] @ bytes_of ''sub1'' @ [0x04] @ bytes_of ''test'' @ [0x07] @ bytes_of ''example''
     @ [0x03] @ bytes_of ''com''
     @ [0x00, 0x00, 0x01, 0x00, 0x01, 0x00, 0x00, 0x00, 0xE1, 0x00, 0x04, 192, 0, 2, 1]
     @ [0x04] @ bytes_of ''sub2'' @ [0xc0, 0x0c]
     @ [0x00, 0x01, 0x00, 0x01, 0x00, 0x00, 0x00, 0xE1, 0x00, 0x04, 192, 0, 2, 2]"

text \<open>
  The message that the test expects \<open>parseDNSMsg\<close> to decode from these bytes.
\<close>

definition dnsMessage :: dnsMsg where
  "dnsMessage =
     \<lparr>id' = 0x1234, response = True, opcode = 0, authoritative = False,
      truncated = False, recursion_desired = True, recursion_available = True,
      rcode = 0, question_num = 1, answer_num = 2, authority_num = 0,
      additional_num = 0,
      question = [\<lparr>QName = ''test.example.com'', Qtype = 1, Qclass = 1\<rparr>],
      answer =
        [\<lparr>RName = ''sub1.test.example.com'', Rrtype = 1, Class = 1, Ttl = 225,
           Rdlength = 4, Data = [192, 0, 2, 1]\<rparr>,
         \<lparr>RName = ''sub2.test.example.com'', Rrtype = 1, Class = 1, Ttl = 225,
           Rdlength = 4, Data = [192, 0, 2, 2]\<rparr>],
      ns = [], extra = []\<rparr>"

text \<open>
  Eleven pointers in a row: the pointer at offset \<open>2 * k\<close>, for \<open>k\<close> below 10, targets
  offset \<open>2 * k + 2\<close>, and the last one, at offset 20, targets offset \<open>0x3FFF\<close>, far
  behind the 22 bytes of the buffer.
\<close>

definition pointer_chain :: "byte list" where
  "pointer_chain =
     [0xC0, 2, 0xC0, 4, 0xC0, 6, 0xC0, 8, 0xC0, 10, 0xC0, 12, 0xC0, 14, 0xC0, 16,
      0xC0, 18, 0xC0, 20, 0xFF, 0xFF]"

section \<open>Properties of the name decoder\<close>

subsection \<open>One run of the loop body\<close>

lemma uint_byte_pos: "0 < uint w" if "w \<noteq> 0" for w :: byte
  using that uint_0_iff [of w] uint_ge_0 [of w] by linarith

lemma ptr_dest_nonneg: "0 \<le> ptr_dest b1 b2"
  by (simp add: ptr_dest_def)

lemma gdn_body_Continue:
  assumes "gdn_body data c s = Some (Continue s')"
  shows "0 \<le> currentReadPos s \<and> currentReadPos s < int (length data) \<and>
    (let b = data ! nat (currentReadPos s) in
       (b \<noteq> 0 \<and> b AND 0xC0 = 0 \<and> currentReadPos s + 1 + uint b \<le> int (length data) \<and>
        s' = s\<lparr>labels := labels s @
                   [string_of_bytes (take (nat (uint b)) (drop (nat (currentReadPos s + 1)) data))],
                currentReadPos := currentReadPos s + 1 + uint b\<rparr>)
     \<or> (b AND 0xC0 = 0xC0 \<and> pointerFollowCount s < 10 \<and>
        currentReadPos s + 1 < int (length data) \<and>
        ptr_dest b (data ! nat (currentReadPos s + 1)) < int (length data) \<and>
        s' = s\<lparr>currentReadPos := ptr_dest b (data ! nat (currentReadPos s + 1)),
                pointerFollowCount := Suc (pointerFollowCount s),
                posAfterFirstPointer :=
                  (if pointerFollowCount s = 0 then currentReadPos s + 2
                   else posAfterFirstPointer s)\<rparr>))"
  using assms
  by (auto simp: gdn_body_def Let_def index_def slice_def ptr_dest_def
           split: if_splits Option.bind_splits)

lemma gdn_body_Break:
  assumes "gdn_body data c s = Some (Break s')"
  shows "0 \<le> currentReadPos s \<and> currentReadPos s < int (length data) \<and>
         data ! nat (currentReadPos s) = 0 \<and>
         s' = s\<lparr>currentReadPos := currentReadPos s + 1\<rparr>"
  using assms
  by (auto simp: gdn_body_def Let_def index_def slice_def
           split: if_splits Option.bind_splits)

lemma gdn_body_Return:
  assumes "gdn_body data c s = Some (Return (name, off, e))"
  shows "(e = Some TooManyCompressionPointers \<and> name = ''Too many compression pointers'' \<and>
          10 \<le> pointerFollowCount s \<and>
          0 \<le> currentReadPos s \<and> currentReadPos s < int (length data) \<and>
          data ! nat (currentReadPos s) AND 0xC0 = 0xC0 \<and>
          off = (if posAfterFirstPointer s \<noteq> 0 then posAfterFirstPointer s else c))
       \<or> (\<exists>e'. e = Some e' \<and> e' \<noteq> TooManyCompressionPointers \<and> name = '''' \<and> off = c)"
  using assms
  by (auto simp: gdn_body_def Let_def index_def slice_def
           split: if_splits Option.bind_splits)

lemma gdn_body_no_panic:
  assumes "0 \<le> currentReadPos s"
  shows "gdn_body data c s \<noteq> None"
  using assms
  by (auto simp: gdn_body_def Let_def index_def slice_def
           split: if_splits Option.bind_splits)

lemma gdn_loop_Continue:
  "gdn_body data c s = Some (Continue s') \<Longrightarrow> gdn_loop data c s = gdn_loop data c s'"
  by (subst gdn_loop.simps) simp

lemma gdn_loop_Break:
  "gdn_body data c s = Some (Break s') \<Longrightarrow> gdn_loop data c s = Some (gdn_finish s')"
  by (subst gdn_loop.simps) simp

lemma gdn_loop_Return:
  "gdn_body data c s = Some (Return t) \<Longrightarrow> gdn_loop data c s = Some t"
  by (subst gdn_loop.simps) simp

lemma gdn_loop_panic:
  "gdn_body data c s = None \<Longrightarrow> gdn_loop data c s = None"
  by (subst gdn_loop.simps) simp

lemma gdn_iter_loop:
  "gdn_iter data c n s = Some s' \<Longrightarrow> gdn_loop data c s = gdn_loop data c s'"
proof (induction n arbitrary: s)
  case 0
  then show ?case by simp
next
  case (Suc n)
  then show ?case
    by (subst gdn_loop.simps) (auto split: option.splits ctl.splits)
qed

lemma gdn_loop_no_panic:
  "0 \<le> currentReadPos s \<Longrightarrow> gdn_loop data c s \<noteq> None"
proof (induction data c s rule: gdn_loop.induct)
  case (1 data c s)
  from "1.prems" have np: "gdn_body data c s \<noteq> None"
    by (rule gdn_body_no_panic)
  then obtain r where r: "gdn_body data c s = Some r" by auto
  show ?case
  proof (cases r)
    case (Continue s')
    with r have "0 \<le> currentReadPos s'"
      using gdn_body_Continue [of data c s s'] ptr_dest_nonneg
      by (auto simp: Let_def)
    with "1.IH" [OF r Continue] have "gdn_loop data c s' \<noteq> None" .
    with r Continue show ?thesis
      by (subst gdn_loop.simps) simp
  next
    case (Break s')
    with r show ?thesis by (subst gdn_loop.simps) simp
  next
    case (Return t)
    with r show ?thesis by (subst gdn_loop.simps) simp
  qed
qed

lemma gdn_loop_after_pointer:
  assumes "0 < pointerFollowCount s" and "posAfterFirstPointer s \<noteq> 0"
    and "gdn_loop data c s = Some (name, off, e)"
  shows "(e = None \<longrightarrow> off = posAfterFirstPointer s)
       \<and> (e = Some TooManyCompressionPointers \<longrightarrow>
            off = posAfterFirstPointer s \<and> name = ''Too many compression pointers'')
       \<and> (\<forall>e'. e = Some e' \<and> e' \<noteq> TooManyCompressionPointers \<longrightarrow> name = '''' \<and> off = c)"
  using assms
proof (induction data c s rule: gdn_loop.induct)
  case (1 data c s)
  from "1.prems"(3) obtain r where r: "gdn_body data c s = Some r"
    using gdn_loop_panic [of data c s] by (cases "gdn_body data c s") auto
  show ?case
  proof (cases r)
    case (Continue s')
    with r "1.prems" have "0 < pointerFollowCount s'"
        and "posAfterFirstPointer s' = posAfterFirstPointer s"
      using gdn_body_Continue [of data c s s'] by (auto simp: Let_def)
    moreover from r Continue "1.prems"(3) have "gdn_loop data c s' = Some (name, off, e)"
      by (simp add: gdn_loop_Continue)
    ultimately show ?thesis
      using "1.IH" [OF r Continue] "1.prems"(2) by simp
  next
    case (Break s')
    with r "1.prems" show ?thesis
      using gdn_body_Break [of data c s s'] gdn_loop_Break [of data c s s']
      by (auto simp: gdn_finish_def Let_def)
  next
    case (Return t)
    with r "1.prems" show ?thesis
      using gdn_body_Return [of data c s name off e] gdn_loop_Return [of data c s t]
      by auto
  qed
qed


subsection \<open>The whole loop\<close>

lemma gdn_body_error:
  assumes "gdn_body data c s = Some (Return (name, off, e))"
  shows "e \<in> Some ` {ReachedEndOfDataBuffer, LabelLengthExceedsDataBuffer,
            TooManyCompressionPointers, IncompletePointerOffset, InvalidPointerDestination,
            InvalidLabelType}"
  using assms
  by (auto simp: gdn_body_def Let_def index_def slice_def
           split: if_splits Option.bind_splits)

lemma gdn_loop_result:
  assumes "0 \<le> currentReadPos s" and "0 < pointerFollowCount s \<longrightarrow> 0 \<le> posAfterFirstPointer s"
    and "gdn_loop data c s = Some (name, off, e)"
  shows "(e = None \<longrightarrow> 0 \<le> off)
       \<and> (e \<noteq> None \<longrightarrow> e \<in> Some ` {ReachedEndOfDataBuffer, LabelLengthExceedsDataBuffer,
            TooManyCompressionPointers, IncompletePointerOffset, InvalidPointerDestination,
            InvalidLabelType})"
  using assms
proof (induction data c s rule: gdn_loop.induct)
  case (1 data c s)
  from "1.prems"(3) obtain r where r: "gdn_body data c s = Some r"
    using gdn_loop_panic [of data c s] by (cases "gdn_body data c s") auto
  show ?case
  proof (cases r)
    case (Continue s')
    with r "1.prems" have "0 \<le> currentReadPos s'"
        and "0 < pointerFollowCount s' \<longrightarrow> 0 \<le> posAfterFirstPointer s'"
      using gdn_body_Continue [of data c s s'] ptr_dest_nonneg by (auto simp: Let_def)
    moreover from r Continue "1.prems"(3) have "gdn_loop data c s' = Some (name, off, e)"
      by (simp add: gdn_loop_Continue)
    ultimately show ?thesis
      using "1.IH" [OF r Continue] by simp
  next
    case (Break s')
    with r "1.prems" show ?thesis
      using gdn_body_Break [of data c s s'] gdn_loop_Break [of data c s s']
      by (auto simp: gdn_finish_def Let_def split: if_splits)
  next
    case (Return t)
    with r "1.prems" show ?thesis
      using gdn_body_error [of data c s name off e] gdn_loop_Return [of data c s t]
      by auto
  qed
qed

lemma getDomainName_total:
  assumes "0 \<le> c"
  shows "\<exists>name off e. getDomainName data c = Some (name, off, e)
           \<and> (e = None \<longrightarrow> 0 \<le> off)
           \<and> (e \<noteq> None \<longrightarrow> e \<in> Some ` {ReachedEndOfDataBuffer, LabelLengthExceedsDataBuffer,
                TooManyCompressionPointers, IncompletePointerOffset, InvalidPointerDestination,
                InvalidLabelType})"
proof -
  have "gdn_loop data c (gdn_init c) \<noteq> None"
    using assms by (intro gdn_loop_no_panic) (simp add: gdn_init_def)
  then obtain name off e where res: "gdn_loop data c (gdn_init c) = Some (name, off, e)"
    by (cases "gdn_loop data c (gdn_init c)") auto
  from gdn_loop_result [OF _ _ this] assms res show ?thesis
    by (simp add: getDomainName_def gdn_init_def)
qed


subsection \<open>The states the loop goes through\<close>

lemma gdn_iter_Suc_Continue:
  "gdn_body data c s = Some (Continue s') \<Longrightarrow> gdn_iter data c (Suc n) s = gdn_iter data c n s'"
  by simp

lemma gdn_iter_snoc:
  "gdn_iter data c n s0 = Some s \<Longrightarrow> gdn_body data c s = Some (Continue s')
     \<Longrightarrow> gdn_iter data c (Suc n) s0 = Some s'"
proof (induction n arbitrary: s0)
  case 0
  then show ?case by simp
next
  case (Suc n)
  from Suc.prems(1) obtain s1 where s1: "gdn_body data c s0 = Some (Continue s1)"
    and rest: "gdn_iter data c n s1 = Some s"
    by (auto split: option.splits ctl.splits)
  from Suc.IH [OF rest Suc.prems(2)] s1 show ?case
    by simp
qed

lemma gdn_iter_count:
  assumes "gdn_iter data c n s = Some s'"
  shows "pointerFollowCount s \<le> pointerFollowCount s'
       \<and> (pointerFollowCount s \<le> 10 \<longrightarrow> pointerFollowCount s' \<le> 10)
       \<and> (pointerFollowCount s' = 0 \<longrightarrow> currentReadPos s \<le> currentReadPos s')"
  using assms
proof (induction n arbitrary: s)
  case 0
  then show ?case by simp
next
  case (Suc n)
  from Suc.prems obtain s1 where s1: "gdn_body data c s = Some (Continue s1)"
    and rest: "gdn_iter data c n s1 = Some s'"
    by (auto split: option.splits ctl.splits)
  have step: "pointerFollowCount s \<le> pointerFollowCount s1
       \<and> (pointerFollowCount s \<le> 10 \<longrightarrow> pointerFollowCount s1 \<le> 10)
       \<and> (pointerFollowCount s1 = 0 \<longrightarrow> currentReadPos s \<le> currentReadPos s1)"
    using gdn_body_Continue [OF s1]
    by (auto simp: Let_def add_increasing2)
  from step Suc.IH [OF rest] show ?case
    by auto
qed

lemma gdn_loop_first_stop:
  assumes "pointerFollowCount s = 0" and "gdn_loop data c s = Some (name, off, e)"
  shows "(e = None \<longrightarrow>
           (\<exists>n s'. gdn_iter data c n s = Some s' \<and> pointerFollowCount s' = 0
              \<and> 0 \<le> currentReadPos s' \<and> currentReadPos s' < int (length data)
              \<and> (data ! nat (currentReadPos s') AND 0xC0 = 0xC0 \<and> off = currentReadPos s' + 2
                  \<or> data ! nat (currentReadPos s') = 0 \<and> off = currentReadPos s' + 1)))
       \<and> (e = Some TooManyCompressionPointers \<longrightarrow>
           name = ''Too many compression pointers''
           \<and> (\<exists>n s'. gdn_iter data c n s = Some s' \<and> pointerFollowCount s' = 0
              \<and> 0 \<le> currentReadPos s' \<and> currentReadPos s' < int (length data)
              \<and> data ! nat (currentReadPos s') AND 0xC0 = 0xC0 \<and> off = currentReadPos s' + 2))
       \<and> (\<forall>e'. e = Some e' \<and> e' \<noteq> TooManyCompressionPointers \<longrightarrow> name = '''' \<and> off = c)"
  using assms
proof (induction data c s rule: gdn_loop.induct)
  case (1 data c s)
  from "1.prems"(2) obtain r where r: "gdn_body data c s = Some r"
    using gdn_loop_panic [of data c s] by (cases "gdn_body data c s") auto
  have here: "gdn_iter data c 0 s = Some s" by simp
  show ?case
  proof (cases r)
    case (Continue s')
    with r have body: "gdn_body data c s = Some (Continue s')" by simp
    from body "1.prems"(2) have loop': "gdn_loop data c s' = Some (name, off, e)"
      by (simp add: gdn_loop_Continue)
    note facts = gdn_body_Continue [OF body]
    show ?thesis
    proof (cases "pointerFollowCount s' = 0")
      case True
      from "1.IH" [OF r Continue True loop'] show ?thesis
        using gdn_iter_Suc_Continue [OF body] by metis
    next
      case False
      with facts "1.prems"(1)
      have ptr: "data ! nat (currentReadPos s) AND 0xC0 = 0xC0"
        and after: "posAfterFirstPointer s' = currentReadPos s + 2"
        and cnt: "0 < pointerFollowCount s'"
        by (auto simp: Let_def)
      from facts after have nz: "posAfterFirstPointer s' \<noteq> 0" by simp
      have "gdn_iter data c 0 s = Some s \<and> pointerFollowCount s = 0
          \<and> 0 \<le> currentReadPos s \<and> currentReadPos s < int (length data)
          \<and> data ! nat (currentReadPos s) AND 0xC0 = 0xC0
          \<and> posAfterFirstPointer s' = currentReadPos s + 2"
        using facts ptr after "1.prems"(1) by simp
      then have ex: "\<exists>n s''. gdn_iter data c n s = Some s'' \<and> pointerFollowCount s'' = 0
          \<and> 0 \<le> currentReadPos s'' \<and> currentReadPos s'' < int (length data)
          \<and> data ! nat (currentReadPos s'') AND 0xC0 = 0xC0
          \<and> posAfterFirstPointer s' = currentReadPos s'' + 2"
        by blast
      from gdn_loop_after_pointer [OF cnt nz loop'] ex
      show ?thesis by auto
    qed
  next
    case (Break s')
    with r have body: "gdn_body data c s = Some (Break s')" by simp
    note facts = gdn_body_Break [OF body]
    from gdn_loop_Break [OF body] "1.prems" facts
    have res: "e = None" "off = currentReadPos s + 1"
      by (auto simp: gdn_finish_def Let_def)
    have "gdn_iter data c 0 s = Some s \<and> pointerFollowCount s = 0
        \<and> 0 \<le> currentReadPos s \<and> currentReadPos s < int (length data)
        \<and> data ! nat (currentReadPos s) = 0 \<and> off = currentReadPos s + 1"
      using facts res "1.prems"(1) by simp
    then have "\<exists>n s''. gdn_iter data c n s = Some s'' \<and> pointerFollowCount s'' = 0
        \<and> 0 \<le> currentReadPos s'' \<and> currentReadPos s'' < int (length data)
        \<and> data ! nat (currentReadPos s'') = 0 \<and> off = currentReadPos s'' + 1"
      by blast
    with res show ?thesis by auto
  next
    case (Return t)
    with r "1.prems" show ?thesis
      using gdn_body_Return [of data c s name off e] gdn_loop_Return [of data c s t]
      by auto
  qed
qed

lemma gdn_loop_exits:
  "\<exists>n s'. gdn_iter data c n s = Some s' \<and> (\<forall>s''. gdn_body data c s' \<noteq> Some (Continue s''))"
proof (induction data c s rule: gdn_loop.induct)
  case (1 data c s)
  show ?case
  proof (cases "\<exists>s1. gdn_body data c s = Some (Continue s1)")
    case True
    then obtain s1 where s1: "gdn_body data c s = Some (Continue s1)" by blast
    from "1.IH" [OF s1 refl] obtain n s'
      where "gdn_iter data c n s1 = Some s'"
        and "\<forall>s''. gdn_body data c s' \<noteq> Some (Continue s'')"
      by blast
    with s1 have "gdn_iter data c (Suc n) s = Some s'
        \<and> (\<forall>s''. gdn_body data c s' \<noteq> Some (Continue s''))"
      by simp
    then show ?thesis by blast
  next
    case False
    then have "gdn_iter data c 0 s = Some s
        \<and> (\<forall>s''. gdn_body data c s \<noteq> Some (Continue s''))"
      by simp
    then show ?thesis by blast
  qed
qed

lemma gdn_init_fields:
  "currentReadPos (gdn_init c) = c" "pointerFollowCount (gdn_init c) = 0"
  "posAfterFirstPointer (gdn_init c) = 0" "labels (gdn_init c) = []"
  by (simp_all add: gdn_init_def)

lemma gdn_body_eleventh_pointer:
  assumes "pointerFollowCount s = 10" and "0 \<le> currentReadPos s"
    and "currentReadPos s < int (length data)"
    and "data ! nat (currentReadPos s) AND 0xC0 = 0xC0"
  shows "gdn_body data c s = Some (Return (''Too many compression pointers'',
           (if posAfterFirstPointer s \<noteq> 0 then posAfterFirstPointer s else c),
           Some TooManyCompressionPointers))"
proof -
  from assms(4) have "data ! nat (currentReadPos s) \<noteq> 0"
    by auto
  with assms show ?thesis
    by (simp add: gdn_body_def index_def Let_def)
qed

lemma gdn_body_pointer:
  assumes "pointerFollowCount s < 10" and "0 \<le> currentReadPos s"
    and "currentReadPos s + 1 < int (length data)"
    and "data ! nat (currentReadPos s) AND 0xC0 = 0xC0"
  shows "gdn_body data c s =
     (if int (length data) \<le> ptr_dest (data ! nat (currentReadPos s))
                                 (data ! nat (currentReadPos s + 1))
      then Some (Return ('''', c, Some InvalidPointerDestination))
      else Some (Continue (s\<lparr>
             currentReadPos := ptr_dest (data ! nat (currentReadPos s))
                                 (data ! nat (currentReadPos s + 1)),
             pointerFollowCount := Suc (pointerFollowCount s),
             posAfterFirstPointer :=
               (if pointerFollowCount s = 0 then currentReadPos s + 2
                else posAfterFirstPointer s)\<rparr>)))"
proof -
  from assms(4) have "data ! nat (currentReadPos s) \<noteq> 0"
    by auto
  with assms ptr_dest_nonneg [of "data ! nat (currentReadPos s)" "data ! nat (currentReadPos s + 1)"]
  show ?thesis
    by (auto simp: gdn_body_def index_def Let_def ptr_dest_def)
qed

lemma self_pointer_iter:
  assumes "0 \<le> c" and "c + 1 < int (length data)"
    and "data ! nat c AND 0xC0 = 0xC0"
    and "ptr_dest (data ! nat c) (data ! nat (c + 1)) = c"
  shows "k \<le> 10 \<Longrightarrow> gdn_iter data c k (gdn_init c)
           = Some \<lparr>labels = [], currentReadPos = c, pointerFollowCount = k,
                   posAfterFirstPointer = (if k = 0 then 0 else c + 2)\<rparr>"
proof (induction k)
  case 0
  then show ?case by (simp add: gdn_init_def)
next
  case (Suc k)
  let ?s = "\<lparr>labels = [], currentReadPos = c, pointerFollowCount = k,
              posAfterFirstPointer = (if k = 0 then 0 else c + 2)\<rparr>"
  from Suc have iter: "gdn_iter data c k (gdn_init c) = Some ?s" by simp
  have "gdn_body data c ?s = Some (Continue \<lparr>labels = [], currentReadPos = c,
          pointerFollowCount = Suc k, posAfterFirstPointer = c + 2\<rparr>)"
    using gdn_body_pointer [of ?s data c] assms Suc.prems by simp
  from gdn_iter_snoc [OF iter this] show ?case by simp
qed

subsection \<open>The resume offset\<close>

text \<open>
  Claim C2. When \<open>getDomainName\<close> succeeds, the offset it returns is fixed by the first
  byte that is not a label: the decoder reaches it with a hop count of 0, in the state \<open>s\<close>
  after \<open>n\<close> runs of the loop body that read labels only. If that byte is a pointer, the
  returned offset is the position just behind the two bytes of this first pointer, however
  many pointers are followed after it; if it is the terminating zero byte, no pointer has
  been followed and the returned offset is the position just behind the zero byte.
\<close>

theorem getDomainName_resume_offset:
  assumes "getDomainName data c = Some (name, off, None)"
  shows "\<exists>n s. gdn_iter data c n (gdn_init c) = Some s \<and> pointerFollowCount s = 0
           \<and> 0 \<le> currentReadPos s \<and> currentReadPos s < int (length data)
           \<and> (data ! nat (currentReadPos s) AND 0xC0 = 0xC0 \<and> off = currentReadPos s + 2
               \<or> data ! nat (currentReadPos s) = 0 \<and> off = currentReadPos s + 1)"
  using gdn_loop_first_stop [of "gdn_init c" data c name off None] assms
  by (simp add: getDomainName_def gdn_init_fields)

text \<open>
  The name of the second answer of the test message, at offset 71: the label \<open>sub2\<close>
  and a pointer at offset 76.
\<close>

theorem getDomainName_resume_offset_witness:
  "getDomainName dnsMessageBytes 71 = Some (''sub2.test.example.com'', 78, None)
   \<and> (\<exists>n s. gdn_iter dnsMessageBytes 71 n (gdn_init 71) = Some s \<and> pointerFollowCount s = 0
           \<and> 0 \<le> currentReadPos s \<and> currentReadPos s < int (length dnsMessageBytes)
           \<and> (dnsMessageBytes ! nat (currentReadPos s) AND 0xC0 = 0xC0
                 \<and> 78 = currentReadPos s + 2
               \<or> dnsMessageBytes ! nat (currentReadPos s) = 0 \<and> 78 = currentReadPos s + 1))"
proof -
  have run: "getDomainName dnsMessageBytes 71 = Some (''sub2.test.example.com'', 78, None)"
    by code_simp
  from getDomainName_resume_offset [OF run] run show ?thesis
    by simp
qed

subsection \<open>The results of the failure paths\<close>

text \<open>
  Claim C10. When \<open>getDomainName\<close> fails with \<open>too many compression pointers\<close>, the
  returned name is the string \<open>Too many compression pointers\<close> and the returned offset is
  the position behind the two bytes of the first pointer of the name, which differs from
  the initial cursor. Every other failure returns the empty name and the initial cursor.
\<close>

theorem getDomainName_error_result:
  assumes "getDomainName data c = Some (name, off, Some e)"
  shows "(e = TooManyCompressionPointers \<longrightarrow>
            name = ''Too many compression pointers'' \<and> off \<noteq> c
            \<and> (\<exists>n s. gdn_iter data c n (gdn_init c) = Some s \<and> pointerFollowCount s = 0
                 \<and> 0 \<le> currentReadPos s \<and> currentReadPos s < int (length data)
                 \<and> data ! nat (currentReadPos s) AND 0xC0 = 0xC0
                 \<and> off = currentReadPos s + 2))
       \<and> (e \<noteq> TooManyCompressionPointers \<longrightarrow> name = '''' \<and> off = c)"
proof (cases "e = TooManyCompressionPointers")
  case False
  with gdn_loop_first_stop [of "gdn_init c" data c name off "Some e"] assms
  show ?thesis
    by (simp add: getDomainName_def gdn_init_fields)
next
  case True
  with gdn_loop_first_stop [of "gdn_init c" data c name off "Some e"] assms
  obtain n s where name: "name = ''Too many compression pointers''"
    and s: "gdn_iter data c n (gdn_init c) = Some s" "pointerFollowCount s = 0"
      "0 \<le> currentReadPos s" "currentReadPos s < int (length data)"
      "data ! nat (currentReadPos s) AND 0xC0 = 0xC0" "off = currentReadPos s + 2"
    by (auto simp: getDomainName_def gdn_init_fields)
  from gdn_iter_count [OF s(1)] s(2) have "c \<le> currentReadPos s"
    by (simp add: gdn_init_fields)
  with s(6) have "off \<noteq> c" by simp
  with True name s show ?thesis by blast
qed

text \<open>
  A pointer that targets itself, and a byte with the reserved top bits \<open>01\<close>.
\<close>

theorem getDomainName_error_result_witness:
  "getDomainName [0xC0, 0x00] 0
     = Some (''Too many compression pointers'', 2, Some TooManyCompressionPointers)
   \<and> (\<exists>n s. gdn_iter [0xC0, 0x00] 0 n (gdn_init 0) = Some s \<and> pointerFollowCount s = 0
         \<and> 0 \<le> currentReadPos s \<and> currentReadPos s < int (length [0xC0, 0x00 :: byte])
         \<and> [0xC0, 0x00 :: byte] ! nat (currentReadPos s) AND 0xC0 = 0xC0
         \<and> (2 :: int) = currentReadPos s + 2)
   \<and> getDomainName [0x41] 0 = Some ('''', 0, Some InvalidLabelType)"
proof -
  have run: "getDomainName [0xC0, 0x00] 0
     = Some (''Too many compression pointers'', 2, Some TooManyCompressionPointers)"
    by code_simp
  have run2: "getDomainName [0x41] 0 = Some ('''', 0, Some InvalidLabelType)"
    by code_simp
  from getDomainName_error_result [OF run] getDomainName_error_result [OF run2] run run2
  show ?thesis
    by simp
qed

subsection \<open>The hop cap\<close>

text \<open>
  Claim C3. \<open>getDomainName\<close> is a total function: its loop is defined by well-founded
  recursion, and after finitely many runs of the body the next run leaves the loop. The
  hop count never passes 10 in a state of the loop, so at most 10 pointers are followed.
  When the decoder meets a pointer byte after 10 hops, that is when the chain of pointers
  of the name is longer than the cap, it returns the error
  \<open>too many compression pointers\<close>. A pointer that targets itself is such a chain.
\<close>

theorem getDomainName_hop_cap:
  "(\<exists>n s. gdn_iter data c n (gdn_init c) = Some s
        \<and> (\<forall>s'. gdn_body data c s \<noteq> Some (Continue s')))
   \<and> (\<forall>n s. gdn_iter data c n (gdn_init c) = Some s \<longrightarrow> pointerFollowCount s \<le> 10)
   \<and> (\<forall>n s. gdn_iter data c n (gdn_init c) = Some s \<and> pointerFollowCount s = 10
          \<and> 0 \<le> currentReadPos s \<and> currentReadPos s < int (length data)
          \<and> data ! nat (currentReadPos s) AND 0xC0 = 0xC0
        \<longrightarrow> (\<exists>off. getDomainName data c
               = Some (''Too many compression pointers'', off, Some TooManyCompressionPointers)))
   \<and> (0 \<le> c \<and> c + 1 < int (length data) \<and> data ! nat c AND 0xC0 = 0xC0
        \<and> ptr_dest (data ! nat c) (data ! nat (c + 1)) = c
        \<longrightarrow> getDomainName data c
             = Some (''Too many compression pointers'', c + 2, Some TooManyCompressionPointers))"
proof (intro conjI allI impI)
  show "\<exists>n s. gdn_iter data c n (gdn_init c) = Some s
        \<and> (\<forall>s'. gdn_body data c s \<noteq> Some (Continue s'))"
    by (rule gdn_loop_exits)
next
  fix n s
  assume "gdn_iter data c n (gdn_init c) = Some s"
  from gdn_iter_count [OF this] show "pointerFollowCount s \<le> 10"
    by (simp add: gdn_init_fields)
next
  fix n s
  assume a: "gdn_iter data c n (gdn_init c) = Some s \<and> pointerFollowCount s = 10
          \<and> 0 \<le> currentReadPos s \<and> currentReadPos s < int (length data)
          \<and> data ! nat (currentReadPos s) AND 0xC0 = 0xC0"
  then have it: "gdn_iter data c n (gdn_init c) = Some s" by simp
  have "getDomainName data c = gdn_loop data c s"
    unfolding getDomainName_def using it by (rule gdn_iter_loop)
  also have "\<dots> = Some (''Too many compression pointers'',
           (if posAfterFirstPointer s \<noteq> 0 then posAfterFirstPointer s else c),
           Some TooManyCompressionPointers)"
    using a by (intro gdn_loop_Return gdn_body_eleventh_pointer) simp_all
  finally show "\<exists>off. getDomainName data c
       = Some (''Too many compression pointers'', off, Some TooManyCompressionPointers)"
    by blast
next
  assume a: "0 \<le> c \<and> c + 1 < int (length data) \<and> data ! nat c AND 0xC0 = 0xC0
        \<and> ptr_dest (data ! nat c) (data ! nat (c + 1)) = c"
  let ?s = "\<lparr>labels = [], currentReadPos = c, pointerFollowCount = 10,
              posAfterFirstPointer = c + 2\<rparr>"
  from a have iter: "gdn_iter data c 10 (gdn_init c) = Some ?s"
    using self_pointer_iter [of c data 10] by simp
  have "getDomainName data c = gdn_loop data c ?s"
    unfolding getDomainName_def using iter by (rule gdn_iter_loop)
  also have "\<dots> = Some (''Too many compression pointers'', c + 2,
           Some TooManyCompressionPointers)"
    using a gdn_body_eleventh_pointer [of ?s data c] by (intro gdn_loop_Return) simp
  finally show "getDomainName data c
       = Some (''Too many compression pointers'', c + 2, Some TooManyCompressionPointers)" .
qed

text \<open>
  The chain of eleven pointers, and the two-byte buffer whose pointer targets offset 0.
\<close>

theorem getDomainName_hop_cap_witness:
  "gdn_iter pointer_chain 0 10 (gdn_init 0)
     = Some \<lparr>labels = [], currentReadPos = 20, pointerFollowCount = 10,
             posAfterFirstPointer = 2\<rparr>
   \<and> (\<exists>off. getDomainName pointer_chain 0
         = Some (''Too many compression pointers'', off, Some TooManyCompressionPointers))
   \<and> getDomainName [0xC0, 0x00] 0
         = Some (''Too many compression pointers'', 2, Some TooManyCompressionPointers)"
proof -
  let ?s = "\<lparr>labels = [], currentReadPos = 20, pointerFollowCount = 10,
             posAfterFirstPointer = 2\<rparr>"
  have iter: "gdn_iter pointer_chain 0 10 (gdn_init 0) = Some ?s"
    by code_simp
  have byte: "pointer_chain ! nat (currentReadPos ?s) AND 0xC0 = 0xC0"
    by (simp add: pointer_chain_def)
  have len: "currentReadPos ?s < int (length pointer_chain)"
    by (simp add: pointer_chain_def)
  have self: "ptr_dest ([0xC0, 0x00] ! nat 0) ([0xC0, 0x00] ! nat (0 + 1)) = 0"
    by (simp add: ptr_dest_def)
  from getDomainName_hop_cap [of pointer_chain 0] iter byte len
  have "\<exists>off. getDomainName pointer_chain 0
         = Some (''Too many compression pointers'', off, Some TooManyCompressionPointers)"
    by (metis gdn_state.select_convs(2,3) zero_le_numeral)
  moreover from getDomainName_hop_cap [of "[0xC0, 0x00]" 0] self
  have "getDomainName [0xC0, 0x00] 0
         = Some (''Too many compression pointers'', 2, Some TooManyCompressionPointers)"
    by simp
  ultimately show ?thesis
    using iter by simp
qed

subsection \<open>Pointer destinations\<close>

text \<open>
  Claim C7, as stated, says that a pointer whose destination is at or behind the end of
  the buffer makes the decode fail with the error \<open>invalid pointer destination\<close>. The
  hop cap is checked first: in the chain of eleven pointers the decoder meets, after 10
  hops, the pointer at offset 20 whose destination \<open>0x3FFF\<close> is outside the 22 bytes,
  and the decode fails with \<open>too many compression pointers\<close> instead.
\<close>

theorem getDomainName_pointer_range_counterexample:
  "gdn_iter pointer_chain 0 10 (gdn_init 0)
     = Some \<lparr>labels = [], currentReadPos = 20, pointerFollowCount = 10,
             posAfterFirstPointer = 2\<rparr>
   \<and> pointer_chain ! 20 AND 0xC0 = 0xC0
   \<and> int (length pointer_chain) \<le> ptr_dest (pointer_chain ! 20) (pointer_chain ! 21)
   \<and> getDomainName pointer_chain 0
       = Some (''Too many compression pointers'', 2, Some TooManyCompressionPointers)
   \<and> getDomainName pointer_chain 0 \<noteq> Some ('''', 0, Some InvalidPointerDestination)"
  by code_simp

text \<open>
  Claim C7, amended. When the decoder meets a pointer after fewer than 10 hops and both
  bytes of the pointer are inside the buffer, then a destination at or behind the end of the
  buffer makes \<open>getDomainName\<close> fail with \<open>invalid pointer destination\<close>, the empty
  name and the initial cursor; and a destination inside the buffer, before or behind the
  pointer, is accepted: the loop goes on with the read position at the destination and
  the hop count raised by one.
\<close>

theorem getDomainName_pointer_destination:
  assumes "gdn_iter data c n (gdn_init c) = Some s"
    and "pointerFollowCount s < 10"
    and "0 \<le> currentReadPos s" and "currentReadPos s + 1 < int (length data)"
    and "data ! nat (currentReadPos s) AND 0xC0 = 0xC0"
  shows "(int (length data) \<le> ptr_dest (data ! nat (currentReadPos s))
                                  (data ! nat (currentReadPos s + 1))
          \<longrightarrow> getDomainName data c = Some ('''', c, Some InvalidPointerDestination))
       \<and> (ptr_dest (data ! nat (currentReadPos s)) (data ! nat (currentReadPos s + 1))
            < int (length data)
          \<longrightarrow> gdn_iter data c (Suc n) (gdn_init c)
              = Some (s\<lparr>currentReadPos := ptr_dest (data ! nat (currentReadPos s))
                                              (data ! nat (currentReadPos s + 1)),
                        pointerFollowCount := Suc (pointerFollowCount s),
                        posAfterFirstPointer :=
                          (if pointerFollowCount s = 0 then currentReadPos s + 2
                           else posAfterFirstPointer s)\<rparr>))"
proof (intro conjI impI)
  assume out: "int (length data) \<le> ptr_dest (data ! nat (currentReadPos s))
                                  (data ! nat (currentReadPos s + 1))"
  have "getDomainName data c = gdn_loop data c s"
    unfolding getDomainName_def using assms(1) by (rule gdn_iter_loop)
  also have "\<dots> = Some ('''', c, Some InvalidPointerDestination)"
    using gdn_body_pointer [OF assms(2-5), of c] out by (intro gdn_loop_Return) simp
  finally show "getDomainName data c = Some ('''', c, Some InvalidPointerDestination)" .
next
  assume inside: "ptr_dest (data ! nat (currentReadPos s)) (data ! nat (currentReadPos s + 1))
            < int (length data)"
  show "gdn_iter data c (Suc n) (gdn_init c)
              = Some (s\<lparr>currentReadPos := ptr_dest (data ! nat (currentReadPos s))
                                              (data ! nat (currentReadPos s + 1)),
                        pointerFollowCount := Suc (pointerFollowCount s),
                        posAfterFirstPointer :=
                          (if pointerFollowCount s = 0 then currentReadPos s + 2
                           else posAfterFirstPointer s)\<rparr>)"
    using gdn_body_pointer [OF assms(2-5), of c] inside
    by (intro gdn_iter_snoc [OF assms(1)]) simp
qed

text \<open>
  A pointer to offset 5 of a 2-byte buffer, the backward pointer of the test message and a
  forward pointer.
\<close>

theorem getDomainName_pointer_destination_witness:
  "getDomainName [0xC0, 0x05] 0 = Some ('''', 0, Some InvalidPointerDestination)
   \<and> gdn_iter dnsMessageBytes 71 (Suc 1) (gdn_init 71)
       = Some \<lparr>labels = [''sub2''], currentReadPos = 12, pointerFollowCount = 1,
               posAfterFirstPointer = 78\<rparr>
   \<and> gdn_iter [0xC0, 0x03, 0x00, 0x00] 0 (Suc 0) (gdn_init 0)
       = Some \<lparr>labels = [], currentReadPos = 3, pointerFollowCount = 1,
               posAfterFirstPointer = 2\<rparr>"
proof -
  have h1: "gdn_iter [0xC0, 0x05] 0 0 (gdn_init 0) = Some (gdn_init 0)"
    by simp
  have r1: "getDomainName [0xC0, 0x05] 0 = Some ('''', 0, Some InvalidPointerDestination)"
    using getDomainName_pointer_destination [OF h1]
    by (simp add: gdn_init_def ptr_dest_def)
  let ?s = "\<lparr>labels = [''sub2''], currentReadPos = 76, pointerFollowCount = 0,
             posAfterFirstPointer = 0\<rparr>"
  have h2: "gdn_iter dnsMessageBytes 71 1 (gdn_init 71) = Some ?s"
    by code_simp
  have b2: "dnsMessageBytes ! 76 = 0xC0" "dnsMessageBytes ! 77 = 0x0C"
    "length dnsMessageBytes = 92"
    by (simp_all add: dnsMessageBytes_def bytes_of_def)
  have r2: "gdn_iter dnsMessageBytes 71 (Suc 1) (gdn_init 71)
       = Some \<lparr>labels = [''sub2''], currentReadPos = 12, pointerFollowCount = 1,
               posAfterFirstPointer = 78\<rparr>"
    using getDomainName_pointer_destination [OF h2]
    by (simp add: b2 ptr_dest_def)
  have h3: "gdn_iter [0xC0, 0x03, 0x00, 0x00] 0 0 (gdn_init 0) = Some (gdn_init 0)"
    by simp
  have r3: "gdn_iter [0xC0, 0x03, 0x00, 0x00] 0 (Suc 0) (gdn_init 0)
       = Some \<lparr>labels = [], currentReadPos = 3, pointerFollowCount = 1,
               posAfterFirstPointer = 2\<rparr>"
    using getDomainName_pointer_destination [OF h3]
    by (simp add: gdn_init_def ptr_dest_def)
  from r1 r2 r3 show ?thesis by blast
qed

subsection \<open>A label that ends the buffer\<close>

text \<open>
  Claim C8. When the decoder meets a label whose declared length makes the label end
  exactly at the end of the buffer, with no terminating byte after it, \<open>getDomainName\<close>
  fails: the label is read, the next run of the loop finds the read position at the end of
  the buffer and returns the empty name, the initial cursor and the error
  \<open>reached end of data buffer\<close>. The decoder meets the label in the loop state \<open>s\<close>,
  reached after \<open>n\<close> runs of the body.
\<close>

theorem getDomainName_label_to_end_fails:
  assumes visit: "gdn_iter data c n (gdn_init c) = Some s"
    and lo: "0 \<le> currentReadPos s"
    and hi: "currentReadPos s < int (length data)"
    and nz: "data ! nat (currentReadPos s) \<noteq> 0"
    and label: "data ! nat (currentReadPos s) AND 0xC0 = 0"
    and exact: "currentReadPos s + 1 + uint (data ! nat (currentReadPos s)) = int (length data)"
  shows "getDomainName data c = Some ('''', c, Some ReachedEndOfDataBuffer)"
proof -
  have "\<exists>s1. gdn_body data c s = Some (Continue s1) \<and> currentReadPos s1 = int (length data)"
    using lo hi nz label exact
    by (simp add: gdn_body_def index_def slice_def Let_def)
  then obtain s1 where step1: "gdn_body data c s = Some (Continue s1)"
    and end1: "currentReadPos s1 = int (length data)"
    by blast
  have step2: "gdn_body data c s1 = Some (Return ('''', c, Some ReachedEndOfDataBuffer))"
    using end1 by (simp add: gdn_body_def)
  have "getDomainName data c = gdn_loop data c s"
    unfolding getDomainName_def using visit by (rule gdn_iter_loop)
  also have "\<dots> = gdn_loop data c s1"
    using step1 by (rule gdn_loop_Continue)
  also have "\<dots> = Some ('''', c, Some ReachedEndOfDataBuffer)"
    using step2 by (rule gdn_loop_Return)
  finally show ?thesis .
qed

text \<open>The buffer \<open>4 test 3 com\<close> without its terminating zero, read from offset 0.\<close>

theorem getDomainName_label_to_end_fails_witness:
  "gdn_iter ([4] @ bytes_of ''test'' @ [3] @ bytes_of ''com'') 0 1 (gdn_init 0)
     = Some \<lparr>labels = [''test''], currentReadPos = 5, pointerFollowCount = 0,
             posAfterFirstPointer = 0\<rparr>
   \<and> getDomainName ([4] @ bytes_of ''test'' @ [3] @ bytes_of ''com'') 0
     = Some ('''', 0, Some ReachedEndOfDataBuffer)"
proof -
  let ?data = "[4] @ bytes_of ''test'' @ [3] @ bytes_of ''com''"
  let ?s = "\<lparr>labels = [''test''], currentReadPos = 5, pointerFollowCount = 0,
             posAfterFirstPointer = 0\<rparr>"
  have v: "gdn_iter ?data 0 1 (gdn_init 0) = Some ?s"
    by code_simp
  have "getDomainName ?data 0 = Some ('''', 0, Some ReachedEndOfDataBuffer)"
    by (rule getDomainName_label_to_end_fails [OF v]) (simp_all add: bytes_of_def)
  with v show ?thesis by simp
qed


section \<open>Properties of the message decoder\<close>

subsection \<open>Reads inside the buffer\<close>

lemma Uint16_at_Some:
  assumes "0 \<le> c" and "c + 2 \<le> int (length data)"
  shows "Uint16_at data c
           = Some (push_bit 8 (ucast (data ! nat c)) OR ucast (data ! nat (c + 1)))"
proof -
  have "nat (c + 1) = nat c + 1" using assms by simp
  with assms show ?thesis
    by (simp add: Uint16_at_def slice_from_def slice_def Uint16_def)
qed

lemma Uint32_at_Some:
  assumes "0 \<le> c" and "c + 4 \<le> int (length data)"
  shows "Uint32_at data c
           = Some (push_bit 24 (ucast (data ! nat c)) OR push_bit 16 (ucast (data ! nat (c + 1)))
                   OR push_bit 8 (ucast (data ! nat (c + 2))) OR ucast (data ! nat (c + 3)))"
proof -
  have "nat (c + 1) = nat c + 1" "nat (c + 2) = nat c + 2" "nat (c + 3) = nat c + 3"
    using assms by simp_all
  with assms show ?thesis
    by (simp add: Uint32_at_def slice_from_def slice_def Uint32_def)
qed

subsection \<open>The header flags\<close>

lemma drop_bit_masks: "drop_bit 10 (0x0400 :: 16 word) = 1" "drop_bit 9 (0x0200 :: 16 word) = 1"
  "drop_bit 8 (0x0100 :: 16 word) = 1" "drop_bit 7 (0x00F0 :: 16 word) = 1"
  by simp_all

lemma Itob_and_one: "Itob (x AND 1) = odd x"
  by (simp add: Itob_def and_one_eq mod2_eq_if)

lemma flag_bits:
  fixes w :: "16 word"
  shows "Itob (drop_bit 10 (w AND 0x0400)) = bit w 10"
    and "Itob (drop_bit 9 (w AND 0x0200)) = bit w 9"
    and "Itob (drop_bit 8 (w AND 0x0100)) = bit w 8"
    and "Itob (drop_bit 7 (w AND 0x00F0)) = bit w 7"
  by (simp_all only: drop_bit_and drop_bit_masks Itob_and_one bit_iff_odd_drop_bit)

lemma and_15_take_bit: "(x :: 16 word) AND 0xF = take_bit 4 x"
proof -
  have "(0xF :: 16 word) = mask 4" by (simp add: mask_eq_exp_minus_1)
  then show ?thesis by (simp add: take_bit_eq_mask)
qed

lemma opcode_bits:
  fixes w :: "16 word"
  shows "unat (ucast (drop_bit 11 w AND 0x000F) :: 64 word) = (unat w div 2 ^ 11) mod 16"
proof -
  have small: "unat x mod 18446744073709551616 = unat x" for x :: "16 word"
    using unsigned_less [of x, where ?'a = nat] by simp
  show ?thesis
    by (simp only: and_15_take_bit)
       (simp add: drop_bit_eq_div take_bit_eq_mod unsigned_ucast_eq
          unsigned_take_bit_eq small unat_mod unat_div)
qed

lemma rcode_bits:
  fixes w :: "16 word"
  shows "unat (ucast (w AND 0x000F) :: 64 word) = unat w mod 16"
proof -
  have small: "unat x mod 18446744073709551616 = unat x" for x :: "16 word"
    using unsigned_less [of x, where ?'a = nat] by simp
  show ?thesis
    by (simp only: and_15_take_bit)
       (simp add: drop_bit_eq_div take_bit_eq_mod unsigned_ucast_eq
          unsigned_take_bit_eq small unat_mod unat_div)
qed


subsection \<open>No step of the decoder panics\<close>

lemma parseRR_total:
  assumes "0 \<le> c"
  shows "\<exists>rr off e. parseRR data c = Some (rr, off, e)
           \<and> (e = None \<longrightarrow> 0 \<le> off) \<and> e \<noteq> Some DataTooShortForDNSHeader"
proof -
  from getDomainName_total [OF assms, of data]
  obtain name off1 e1 where g: "getDomainName data c = Some (name, off1, e1)"
    and off1: "e1 = None \<longrightarrow> 0 \<le> off1"
    and e1: "e1 \<noteq> Some DataTooShortForDNSHeader"
    by auto
  show ?thesis
  proof (cases "e1 = None \<and> off1 + 10 \<le> int (length data)")
    case False
    with g e1 show ?thesis
      by (cases e1) (auto simp: parseRR_def Let_def)
  next
    case True
    with off1 have "0 \<le> off1" by simp
    with g True show ?thesis
      by (simp add: parseRR_def Uint16_at_Some Uint32_at_Some slice_def Let_def)
  qed
qed

lemma question_loop_total:
  assumes "0 \<le> c"
  shows "\<exists>qs' off e. question_loop data n i qs c = Some (qs', off, e)
           \<and> (e = None \<longrightarrow> 0 \<le> off) \<and> e \<noteq> Some DataTooShortForDNSHeader
           \<and> length qs' = length qs"
  using assms
proof (induction "n - i" arbitrary: i qs c)
  case 0
  then show ?case
    by (subst question_loop.simps) simp
next
  case (Suc k)
  from getDomainName_total [OF Suc.prems, of data]
  obtain name off1 e1 where g: "getDomainName data c = Some (name, off1, e1)"
    and off1: "e1 = None \<longrightarrow> 0 \<le> off1"
    and e1: "e1 \<noteq> Some DataTooShortForDNSHeader"
    by auto
  show ?case
  proof (cases "c < int (length data) \<and> e1 = None \<and> off1 + 4 \<le> int (length data)")
    case False
    with g e1 Suc.prems show ?thesis
      by (subst question_loop.simps, cases e1) (auto simp: Let_def)
  next
    case True
    with off1 have b: "0 \<le> off1" by simp
    from Suc.hyps(2) have i: "i < n" "k = n - (i + 1)" by simp_all
    have "\<exists>qs3 c3. question_loop data n i qs c = question_loop data n (i + 1) qs3 c3
            \<and> length qs3 = length qs \<and> 0 \<le> c3"
      using True g b i(1)
      apply (subst question_loop.simps)
      apply (simp add: Uint16_at_Some Let_def)
      apply (intro exI conjI, rule refl)
       apply simp_all
      done
    then obtain qs3 c3
      where unfold: "question_loop data n i qs c = question_loop data n (i + 1) qs3 c3"
        and len: "length qs3 = length qs" and c3: "0 \<le> c3"
      by blast
    from Suc.hyps(1) [OF i(2) c3, of qs3] show ?thesis
      unfolding unfold len .
  qed
qed

lemma rr_loop_total:
  assumes "0 \<le> c"
  shows "\<exists>rrs' off e. rr_loop data eof n i rrs c = Some (rrs', off, e)
           \<and> (e = None \<longrightarrow> 0 \<le> off)
           \<and> (eof \<noteq> DataTooShortForDNSHeader \<longrightarrow> e \<noteq> Some DataTooShortForDNSHeader)
           \<and> length rrs' = length rrs"
  using assms
proof (induction "n - i" arbitrary: i rrs c)
  case 0
  then show ?case
    by (subst rr_loop.simps) simp
next
  case (Suc k)
  from parseRR_total [OF Suc.prems, of data]
  obtain rr off1 e1 where g: "parseRR data c = Some (rr, off1, e1)"
    and off1: "e1 = None \<longrightarrow> 0 \<le> off1"
    and e1: "e1 \<noteq> Some DataTooShortForDNSHeader"
    by auto
  show ?case
  proof (cases "c < int (length data) \<and> e1 = None")
    case False
    with g e1 Suc.prems show ?thesis
      by (subst rr_loop.simps, cases e1) (auto simp: Let_def)
  next
    case True
    with off1 have b: "0 \<le> off1" by simp
    from Suc.hyps(2) have i: "i < n" "k = n - (i + 1)" by simp_all
    have unfold: "rr_loop data eof n i rrs c = rr_loop data eof n (i + 1) (rrs[i := rr]) off1"
      using True g i(1)
      by (subst rr_loop.simps) (simp add: Let_def)
    from Suc.hyps(1) [OF i(2) b, of "rrs[i := rr]"] show ?thesis
      unfolding unfold by simp
  qed
qed

lemma rr_section_total:
  assumes "0 \<le> c"
  shows "\<exists>rrs off e. rr_section data eof num c = Some (rrs, off, e)
           \<and> (e = None \<longrightarrow> 0 \<le> off)
           \<and> (eof \<noteq> DataTooShortForDNSHeader \<longrightarrow> e \<noteq> Some DataTooShortForDNSHeader)
           \<and> length rrs = unat num"
proof (cases "num > 0")
  case True
  with rr_loop_total [OF assms, of data eof "unat num" 0 "replicate (unat num) zero_dnsRR"]
  show ?thesis
    by (simp add: rr_section_def)
next
  case False
  then have "num = 0" by (simp add: word_greater_zero_iff)
  with assms show ?thesis
    by (simp add: rr_section_def)
qed


lemma parse_header_Some:
  assumes "12 \<le> length data"
  shows "parse_header data = Some (zero_dnsMsg\<lparr>
       id' := push_bit 8 (ucast (data ! 0)) OR ucast (data ! 1),
       response := True,
       opcode := ucast (drop_bit 11 (push_bit 8 (ucast (data ! 2)) OR ucast (data ! 3) :: 16 word)
                        AND 0x000F),
       authoritative := Itob (drop_bit 10
          ((push_bit 8 (ucast (data ! 2)) OR ucast (data ! 3)) AND 0x0400)),
       truncated := Itob (drop_bit 9
          ((push_bit 8 (ucast (data ! 2)) OR ucast (data ! 3)) AND 0x0200)),
       recursion_desired := Itob (drop_bit 8
          ((push_bit 8 (ucast (data ! 2)) OR ucast (data ! 3)) AND 0x0100)),
       recursion_available := Itob (drop_bit 7
          ((push_bit 8 (ucast (data ! 2)) OR ucast (data ! 3)) AND 0x00F0)),
       rcode := ucast ((push_bit 8 (ucast (data ! 2)) OR ucast (data ! 3) :: 16 word) AND 0x000F),
       question_num := push_bit 8 (ucast (data ! 4)) OR ucast (data ! 5),
       answer_num := push_bit 8 (ucast (data ! 6)) OR ucast (data ! 7),
       authority_num := push_bit 8 (ucast (data ! 8)) OR ucast (data ! 9),
       additional_num := push_bit 8 (ucast (data ! 10)) OR ucast (data ! 11)\<rparr>)"
  using assms
  by (simp add: parse_header_def Uint16_at_Some Uint16_def)

lemma parseDNSMsg_total:
  assumes "12 \<le> length data" and hdr: "parse_header data = Some hdr"
  shows "\<exists>qs an au ad e. parseDNSMsg data
            = Some (hdr\<lparr>question := qs, answer := an, ns := au, extra := ad\<rparr>, e)
          \<and> e \<noteq> Some DataTooShortForDNSHeader
          \<and> (e = None \<longrightarrow> length qs = unat (question_num hdr)
                \<and> length an = unat (answer_num hdr)
                \<and> length au = unat (authority_num hdr)
                \<and> length ad = unat (additional_num hdr))"
proof -
  have z: "question hdr = []" "answer hdr = []" "ns hdr = []" "extra hdr = []"
    using parse_header_Some [OF assms(1)] hdr by (auto simp: zero_dnsMsg_def)
  have id: "hdr\<lparr>question := [], answer := [], ns := [], extra := []\<rparr> = hdr"
    using z by simp
  from question_loop_total [of 12 data "unat (question_num hdr)" 0
      "replicate (unat (question_num hdr)) zero_dnsQuestion"]
  obtain qs c1 e1 where
    q: "question_loop data (unat (question_num hdr)) 0
          (replicate (unat (question_num hdr)) zero_dnsQuestion) 12 = Some (qs, c1, e1)"
    and q1: "e1 = None \<longrightarrow> 0 \<le> c1" "e1 \<noteq> Some DataTooShortForDNSHeader"
      "length qs = unat (question_num hdr)"
    by auto
  show ?thesis
  proof (cases e1)
    case (Some err)
    have "parseDNSMsg data = Some (hdr\<lparr>question := [], answer := [], ns := [], extra := []\<rparr>, e1)"
      using assms q Some by (simp add: parseDNSMsg_def id)
    with q1 Some show ?thesis by blast
  next
    case None
    with q1 have c1: "0 \<le> c1" by simp
    from rr_section_total [OF c1, of data EOFParsingAnswers "answer_num hdr"]
    obtain an c2 e2 where
      a: "rr_section data EOFParsingAnswers (answer_num hdr) c1 = Some (an, c2, e2)"
      and a1: "e2 = None \<longrightarrow> 0 \<le> c2" "e2 \<noteq> Some DataTooShortForDNSHeader"
        "length an = unat (answer_num hdr)"
      by auto
    show ?thesis
    proof (cases e2)
      case (Some err)
      have "parseDNSMsg data = Some (hdr\<lparr>question := qs, answer := [], ns := [], extra := []\<rparr>, e2)"
        using assms q None a Some z by (simp add: parseDNSMsg_def)
      with a1 Some show ?thesis by blast
    next
      case None2: None
      with a1 have c2: "0 \<le> c2" by simp
      from rr_section_total [OF c2, of data EOFParsingAuthorityRRs "authority_num hdr"]
      obtain au c3 e3 where
        b: "rr_section data EOFParsingAuthorityRRs (authority_num hdr) c2 = Some (au, c3, e3)"
        and b1: "e3 = None \<longrightarrow> 0 \<le> c3" "e3 \<noteq> Some DataTooShortForDNSHeader"
          "length au = unat (authority_num hdr)"
        by auto
      show ?thesis
      proof (cases e3)
        case (Some err)
        have "parseDNSMsg data = Some (hdr\<lparr>question := qs, answer := an, ns := [], extra := []\<rparr>, e3)"
          using assms q None a None2 b Some z by (simp add: parseDNSMsg_def)
        with b1 Some show ?thesis by blast
      next
        case None3: None
        with b1 have c3: "0 \<le> c3" by simp
        from rr_section_total [OF c3, of data EOFParsingAdditionalRRs "additional_num hdr"]
        obtain ad c4 e4 where
          d: "rr_section data EOFParsingAdditionalRRs (additional_num hdr) c3 = Some (ad, c4, e4)"
          and d1: "e4 \<noteq> Some DataTooShortForDNSHeader"
            "length ad = unat (additional_num hdr)"
          by auto
        show ?thesis
        proof (cases e4)
          case (Some err)
          have "parseDNSMsg data = Some (hdr\<lparr>question := qs, answer := an, ns := au, extra := []\<rparr>, e4)"
            using assms q None a None2 b None3 d Some z by (simp add: parseDNSMsg_def)
          with d1 Some show ?thesis by blast
        next
          case None4: None
          have "parseDNSMsg data = Some (hdr\<lparr>question := qs, answer := an, ns := au, extra := ad\<rparr>, None)"
            using assms q None a None2 b None3 d None4 by (simp add: parseDNSMsg_def)
          with q1 a1 b1 d1 show ?thesis by blast
        qed
      qed
    qed
  qed
qed


subsection \<open>The decoded header\<close>

text \<open>
  For a buffer of 12 bytes or more the header is decoded without a panic. With \<open>w\<close> the
  16-bit big-endian word at offset 2, the flags \<open>authoritative\<close>, \<open>truncated\<close>,
  \<open>recursion_desired\<close> and \<open>recursion_available\<close> are the bits 10, 9, 8 and 7 of \<open>w\<close>,
  \<open>opcode\<close> is the four bits from bit 11 and \<open>rcode\<close> the four lowest bits. The mask
  \<open>0x00F0\<close> of \<open>recursion_available\<close> is wider than bit 7, but the shift by 7 drops
  the three extra bits. The field \<open>response\<close> is the constant \<open>true\<close>.
\<close>

lemma parse_header_flags:
  assumes "12 \<le> length data"
  shows "\<exists>hdr. parse_header data = Some hdr
    \<and> authoritative hdr = bit (push_bit 8 (ucast (data ! 2)) OR ucast (data ! 3) :: 16 word) 10
    \<and> truncated hdr = bit (push_bit 8 (ucast (data ! 2)) OR ucast (data ! 3) :: 16 word) 9
    \<and> recursion_desired hdr = bit (push_bit 8 (ucast (data ! 2)) OR ucast (data ! 3) :: 16 word) 8
    \<and> recursion_available hdr = bit (push_bit 8 (ucast (data ! 2)) OR ucast (data ! 3) :: 16 word) 7
    \<and> unat (opcode hdr)
        = unat (push_bit 8 (ucast (data ! 2)) OR ucast (data ! 3) :: 16 word) div 2 ^ 11 mod 16
    \<and> unat (rcode hdr) = unat (push_bit 8 (ucast (data ! 2)) OR ucast (data ! 3) :: 16 word) mod 16
    \<and> response hdr = True"
proof -
  define w :: "16 word" where "w = push_bit 8 (ucast (data ! 2)) OR ucast (data ! 3)"
  from parse_header_Some [OF assms, folded w_def]
  obtain hdr where hdr: "parse_header data = Some hdr"
    and fields: "authoritative hdr = Itob (drop_bit 10 (w AND 0x0400))"
      "truncated hdr = Itob (drop_bit 9 (w AND 0x0200))"
      "recursion_desired hdr = Itob (drop_bit 8 (w AND 0x0100))"
      "recursion_available hdr = Itob (drop_bit 7 (w AND 0x00F0))"
      "opcode hdr = ucast (drop_bit 11 w AND 0x000F)"
      "rcode hdr = ucast (w AND 0x000F)"
      "response hdr = True"
    by simp
  have "authoritative hdr = bit w 10" "truncated hdr = bit w 9"
    "recursion_desired hdr = bit w 8" "recursion_available hdr = bit w 7"
    unfolding fields by (rule flag_bits)+
  moreover have "unat (opcode hdr) = unat w div 2 ^ 11 mod 16"
    unfolding fields by (rule opcode_bits)
  moreover have "unat (rcode hdr) = unat w mod 16"
    unfolding fields by (rule rcode_bits)
  ultimately show ?thesis
    using hdr fields(7)
    unfolding w_def [symmetric] by blast
qed

text \<open>
  Claim C1. The claim says that the field \<open>response\<close> of the returned message is bit 15
  of the flags word. The source assigns \<open>msg.response = true\<close> and never reads bit 15: for
  the 12-byte query with id 1 and flags \<open>0x0100\<close> (a query with recursion desired, no
  section entries) \<open>parseDNSMsg\<close> succeeds with \<open>response\<close> set, although bit 15 of
  the flags word \<open>0x0100\<close> is clear.
\<close>

theorem parseDNSMsg_response_hardcoded:
  "parseDNSMsg [0x00, 0x01, 0x01, 0x00, 0x00, 0x00, 0x00, 0x00, 0x00, 0x00, 0x00, 0x00]
     = Some (zero_dnsMsg\<lparr>id' := 1, response := True, recursion_desired := True\<rparr>, None)
   \<and> Uint16_at [0x00, 0x01, 0x01, 0x00, 0x00, 0x00, 0x00, 0x00, 0x00, 0x00, 0x00, 0x00] 2
     = Some 0x0100
   \<and> \<not> bit (0x0100 :: 16 word) 15"
  by code_simp

text \<open>
  Claim C9. A buffer shorter than 12 bytes makes \<open>parseDNSMsg\<close> return the zero message,
  of which no field has been assigned, with the error \<open>data too short for DNS header\<close>.
  For a buffer of 12 bytes or more the header is parsed: \<open>parse_header\<close> returns a header
  without a panic, the message that \<open>parseDNSMsg\<close> returns carries this header, its
  sections apart, and the error of \<open>parseDNSMsg\<close>, if there is one, is not the
  header error.
\<close>

theorem parseDNSMsg_header_length:
  "(length data < 12 \<longrightarrow>
      parseDNSMsg data = Some (zero_dnsMsg, Some DataTooShortForDNSHeader))
   \<and> (12 \<le> length data \<longrightarrow>
      (\<exists>hdr qs an au ad e. parse_header data = Some hdr
         \<and> parseDNSMsg data = Some (hdr\<lparr>question := qs, answer := an, ns := au, extra := ad\<rparr>, e)
         \<and> e \<noteq> Some DataTooShortForDNSHeader))"
proof (intro conjI impI)
  assume "length data < 12"
  then show "parseDNSMsg data = Some (zero_dnsMsg, Some DataTooShortForDNSHeader)"
    by (simp add: parseDNSMsg_def)
next
  assume len: "12 \<le> length data"
  then obtain hdr where hdr: "parse_header data = Some hdr"
    using parse_header_Some by blast
  from parseDNSMsg_total [OF len hdr] hdr
  show "\<exists>hdr qs an au ad e. parse_header data = Some hdr
         \<and> parseDNSMsg data = Some (hdr\<lparr>question := qs, answer := an, ns := au, extra := ad\<rparr>, e)
         \<and> e \<noteq> Some DataTooShortForDNSHeader"
    by blast
qed

text \<open>
  A 3-byte buffer and the 92-byte message of the test.
\<close>

theorem parseDNSMsg_header_length_witness:
  "length [0x12, 0x34, 0x81 :: byte] < 12
   \<and> parseDNSMsg [0x12, 0x34, 0x81] = Some (zero_dnsMsg, Some DataTooShortForDNSHeader)
   \<and> 12 \<le> length dnsMessageBytes
   \<and> (\<exists>hdr qs an au ad e. parse_header dnsMessageBytes = Some hdr
         \<and> parseDNSMsg dnsMessageBytes
            = Some (hdr\<lparr>question := qs, answer := an, ns := au, extra := ad\<rparr>, e)
         \<and> e \<noteq> Some DataTooShortForDNSHeader)"
proof -
  have short: "length [0x12, 0x34, 0x81 :: byte] < 12" by simp
  have long: "12 \<le> length dnsMessageBytes" by (simp add: dnsMessageBytes_def bytes_of_def)
  from parseDNSMsg_header_length [of "[0x12, 0x34, 0x81]"] short
    parseDNSMsg_header_length [of dnsMessageBytes] long
  show ?thesis by blast
qed

subsection \<open>Section lengths\<close>

lemma parseDNSMsg_success_steps:
  assumes "parseDNSMsg data = Some (m, None)"
  shows "\<exists>hdr qs c1 an c2 au c3 ad c4. parse_header data = Some hdr
     \<and> question_loop data (unat (question_num hdr)) 0
          (replicate (unat (question_num hdr)) zero_dnsQuestion) 12 = Some (qs, c1, None)
     \<and> rr_section data EOFParsingAnswers (answer_num hdr) c1 = Some (an, c2, None)
     \<and> rr_section data EOFParsingAuthorityRRs (authority_num hdr) c2 = Some (au, c3, None)
     \<and> rr_section data EOFParsingAdditionalRRs (additional_num hdr) c3 = Some (ad, c4, None)
     \<and> m = hdr\<lparr>question := qs, answer := an, ns := au, extra := ad\<rparr>"
  using assms
  by (auto simp: parseDNSMsg_def Let_def split: if_splits Option.bind_splits prod.splits)

lemma rr_loop_parsed:
  assumes "length rrs = n" and "rr_loop data eof n i rrs c = Some (rrs', c', None)"
  shows "length rrs' = n \<and> (\<forall>j<i. rrs' ! j = rrs ! j)
       \<and> (\<forall>j. i \<le> j \<and> j < n \<longrightarrow> (\<exists>a b. parseRR data a = Some (rrs' ! j, b, None)))"
  using assms
proof (induction "n - i" arbitrary: i rrs c)
  case 0
  then show ?case
    by (subst (asm) rr_loop.simps) auto
next
  case (Suc k)
  from Suc.hyps(2) have i: "i < n" "k = n - (i + 1)" by simp_all
  from Suc.prems(2) i(1) obtain rr off1
    where p: "parseRR data c = Some (rr, off1, None)"
      and rest: "rr_loop data eof n (i + 1) (rrs[i := rr]) off1 = Some (rrs', c', None)"
    by (subst (asm) rr_loop.simps)
       (auto simp: Let_def split: if_splits Option.bind_splits prod.splits)
  from Suc.prems(1) have len: "length (rrs[i := rr]) = n" by simp
  from Suc.hyps(1) [OF i(2) len rest]
  have len': "length rrs' = n"
    and before: "\<forall>j<i + 1. rrs' ! j = rrs[i := rr] ! j"
    and after: "\<forall>j. i + 1 \<le> j \<and> j < n \<longrightarrow> (\<exists>a b. parseRR data a = Some (rrs' ! j, b, None))"
    by blast+
  from before i(1) Suc.prems(1) have here: "rrs' ! i = rr" by simp
  have "\<forall>j<i. rrs' ! j = rrs ! j"
    using before by simp
  moreover have "\<exists>a b. parseRR data a = Some (rrs' ! j, b, None)" if "i \<le> j \<and> j < n" for j
  proof (cases "j = i")
    case True
    with here p show ?thesis by blast
  next
    case False
    with that after show ?thesis by simp
  qed
  ultimately show ?case using len' by blast
qed

lemma rr_section_parsed:
  assumes "rr_section data eof num c = Some (rrs, c', None)"
  shows "length rrs = unat num
       \<and> (\<forall>rr \<in> set rrs. \<exists>a b. parseRR data a = Some (rr, b, None))"
proof (cases "num > 0")
  case True
  with assms have loop: "rr_loop data eof (unat num) 0 (replicate (unat num) zero_dnsRR) c
      = Some (rrs, c', None)"
    by (simp add: rr_section_def)
  from rr_loop_parsed [OF _ loop] show ?thesis
    by (auto simp: in_set_conv_nth)
next
  case False
  then have "num = 0" by (simp add: word_greater_zero_iff)
  with assms show ?thesis
    by (auto simp: rr_section_def)
qed

lemma question_loop_parsed:
  assumes "length qs = n" and "question_loop data n i qs c = Some (qs', c', None)"
  shows "length qs' = n \<and> (\<forall>j<i. qs' ! j = qs ! j)
       \<and> (\<forall>j. i \<le> j \<and> j < n \<longrightarrow>
            (\<exists>a name b qt qc. getDomainName data a = Some (name, b, None)
               \<and> Uint16_at data b = Some qt \<and> Uint16_at data (b + 2) = Some qc
               \<and> qs' ! j = \<lparr>QName = name, Qtype = qt, Qclass = qc\<rparr>))"
  using assms
proof (induction "n - i" arbitrary: i qs c)
  case 0
  then show ?case
    by (subst (asm) question_loop.simps) auto
next
  case (Suc k)
  from Suc.hyps(2) have i: "i < n" "k = n - (i + 1)" by simp_all
  have "\<exists>name off1 qt qc qs3 c3. getDomainName data c = Some (name, off1, None)
      \<and> Uint16_at data off1 = Some qt \<and> Uint16_at data (off1 + 2) = Some qc
      \<and> length qs3 = n \<and> qs3 ! i = \<lparr>QName = name, Qtype = qt, Qclass = qc\<rparr>
      \<and> (\<forall>j<i. qs3 ! j = qs ! j)
      \<and> question_loop data n (i + 1) qs3 c3 = Some (qs', c', None)"
    using Suc.prems i(1)
    apply (subst (asm) question_loop.simps)
    apply (auto simp: Let_def split: if_splits Option.bind_splits prod.splits)
    subgoal for name off1 qt qc
      by (rule exI [of _ "qs[i := (qs ! i)\<lparr>QName := name, Qtype := qt, Qclass := qc\<rparr>]"])
         auto
    done
  then obtain name off1 qt qc qs3 c3
    where g: "getDomainName data c = Some (name, off1, None)"
      and qt: "Uint16_at data off1 = Some qt"
      and qc: "Uint16_at data (off1 + 2) = Some qc"
      and len: "length qs3 = n"
      and qs3: "qs3 ! i = \<lparr>QName = name, Qtype = qt, Qclass = qc\<rparr>"
        "\<forall>j<i. qs3 ! j = qs ! j"
      and rest: "question_loop data n (i + 1) qs3 c3 = Some (qs', c', None)"
    by blast
  from Suc.hyps(1) [OF i(2) len rest]
  have len': "length qs' = n"
    and before: "\<forall>j<i + 1. qs' ! j = qs3 ! j"
    and after: "\<forall>j. i + 1 \<le> j \<and> j < n \<longrightarrow>
            (\<exists>a name b qt qc. getDomainName data a = Some (name, b, None)
               \<and> Uint16_at data b = Some qt \<and> Uint16_at data (b + 2) = Some qc
               \<and> qs' ! j = \<lparr>QName = name, Qtype = qt, Qclass = qc\<rparr>)"
    by blast+
  from before i(1) Suc.prems(1) qs3
  have here: "qs' ! i = \<lparr>QName = name, Qtype = qt, Qclass = qc\<rparr>"
    by simp
  have "\<forall>j<i. qs' ! j = qs ! j"
    using before qs3 by simp
  moreover have "\<exists>a name b qt qc. getDomainName data a = Some (name, b, None)
               \<and> Uint16_at data b = Some qt \<and> Uint16_at data (b + 2) = Some qc
               \<and> qs' ! j = \<lparr>QName = name, Qtype = qt, Qclass = qc\<rparr>"
    if "i \<le> j \<and> j < n" for j
  proof (cases "j = i")
    case True
    with here g qt qc show ?thesis by blast
  next
    case False
    with that after show ?thesis by simp
  qed
  ultimately show ?case using len' by blast
qed

text \<open>
  On success every entry of a section comes from a call that has succeeded, and the
  sections have the declared lengths.
\<close>

lemma parse_success_entries:
  assumes "parseDNSMsg data = Some (m, None)"
  shows "length (question m) = unat (question_num m)
       \<and> length (answer m) = unat (answer_num m)
       \<and> length (ns m) = unat (authority_num m)
       \<and> length (extra m) = unat (additional_num m)
       \<and> (\<forall>q \<in> set (question m).
            \<exists>a name b qt qc. getDomainName data a = Some (name, b, None)
              \<and> Uint16_at data b = Some qt \<and> Uint16_at data (b + 2) = Some qc
              \<and> q = \<lparr>QName = name, Qtype = qt, Qclass = qc\<rparr>)
       \<and> (\<forall>rr \<in> set (answer m) \<union> set (ns m) \<union> set (extra m).
            \<exists>a b. parseRR data a = Some (rr, b, None))"
proof -
  from parseDNSMsg_success_steps [OF assms]
  obtain hdr qs c1 an c2 au c3 ad c4 where hdr: "parse_header data = Some hdr"
    and q: "question_loop data (unat (question_num hdr)) 0
          (replicate (unat (question_num hdr)) zero_dnsQuestion) 12 = Some (qs, c1, None)"
    and a: "rr_section data EOFParsingAnswers (answer_num hdr) c1 = Some (an, c2, None)"
    and b: "rr_section data EOFParsingAuthorityRRs (authority_num hdr) c2 = Some (au, c3, None)"
    and d: "rr_section data EOFParsingAdditionalRRs (additional_num hdr) c3 = Some (ad, c4, None)"
    and m: "m = hdr\<lparr>question := qs, answer := an, ns := au, extra := ad\<rparr>"
    by blast
  from question_loop_parsed [OF _ q]
  have qlen: "length qs = unat (question_num hdr)"
    and qall: "\<forall>j. j < unat (question_num hdr) \<longrightarrow>
            (\<exists>a name b qt qc. getDomainName data a = Some (name, b, None)
               \<and> Uint16_at data b = Some qt \<and> Uint16_at data (b + 2) = Some qc
               \<and> qs ! j = \<lparr>QName = name, Qtype = qt, Qclass = qc\<rparr>)"
    by simp_all
  have qset: "\<forall>q \<in> set qs.
            \<exists>a name b qt qc. getDomainName data a = Some (name, b, None)
              \<and> Uint16_at data b = Some qt \<and> Uint16_at data (b + 2) = Some qc
              \<and> q = \<lparr>QName = name, Qtype = qt, Qclass = qc\<rparr>"
    using qall qlen by (metis in_set_conv_nth)
  note an = rr_section_parsed [OF a] and au = rr_section_parsed [OF b]
    and ad = rr_section_parsed [OF d]
  have rrs: "\<forall>rr \<in> set an \<union> set au \<union> set ad. \<exists>a b. parseRR data a = Some (rr, b, None)"
    using an au ad by blast
  from qlen qset an au ad rrs show ?thesis
    unfolding m by simp
qed

text \<open>
  The loops of \<open>parseDNSMsg\<close> against the sequential decoding: a loop ends without an
  error exactly when the decoding of its remaining entries succeeds, and then the slice
  holds what was there before index \<open>i\<close>, followed by the decoded entries.
\<close>

lemma gdn_body_at_end:
  "int (length data) \<le> currentReadPos s
     \<Longrightarrow> gdn_body data c s = Some (Return ('''', c, Some ReachedEndOfDataBuffer))"
  by (simp add: gdn_body_def)

lemma getDomainName_success_start:
  assumes "getDomainName data c = Some (name, b, None)"
  shows "0 \<le> c \<and> c < int (length data) \<and> 0 \<le> b"
proof -
  have lt: "c < int (length data)"
  proof (rule ccontr)
    assume "\<not> c < int (length data)"
    then have "gdn_body data c (gdn_init c) = Some (Return ('''', c, Some ReachedEndOfDataBuffer))"
      by (intro gdn_body_at_end) (simp add: gdn_init_def)
    from gdn_loop_Return [OF this] assms show False
      by (simp add: getDomainName_def)
  qed
  have ge: "0 \<le> c"
  proof (rule ccontr)
    assume "\<not> 0 \<le> c"
    with lt have "gdn_body data c (gdn_init c) = None"
      by (simp add: gdn_body_def gdn_init_def index_def)
    from gdn_loop_panic [OF this] assms show False
      by (simp add: getDomainName_def)
  qed
  from getDomainName_total [OF ge, of data] assms have "0 \<le> b" by auto
  with lt ge show ?thesis by simp
qed

lemma parseRR_success_start:
  assumes "parseRR data c = Some (rr, b, None)"
  shows "0 \<le> c \<and> c < int (length data) \<and> 0 \<le> b"
proof -
  from assms obtain name b0 where g: "getDomainName data c = Some (name, b0, None)"
    by (auto simp: parseRR_def Let_def split: if_splits Option.bind_splits prod.splits)
  from getDomainName_success_start [OF g] have c: "0 \<le> c" "c < int (length data)" by simp_all
  from parseRR_total [OF c(1), of data] assms have "0 \<le> b" by auto
  with c show ?thesis by simp
qed

lemma decode_records_length:
  "decode_records data k c = Some (rrs, c') \<Longrightarrow> length rrs = k"
  by (induction k arbitrary: c rrs)
     (auto split: option.splits prod.splits)

lemma decode_questions_length:
  "decode_questions data k c = Some (qs, c') \<Longrightarrow> length qs = k"
  by (induction k arbitrary: c qs)
     (auto split: option.splits prod.splits if_splits)

lemma take_Suc_update: "i < length xs \<Longrightarrow> take (Suc i) (xs[i := x]) = take i xs @ [x]"
  by (simp add: take_Suc_conv_app_nth)

lemma rr_loop_step:
  assumes "i < n" and "parseRR data c = Some (rr, b, None)"
  shows "rr_loop data eof n i rrs c = rr_loop data eof n (i + 1) (rrs[i := rr]) b"
proof -
  from parseRR_success_start [OF assms(2)] have "c < int (length data)" by simp
  with assms show ?thesis
    by (subst rr_loop.simps) (simp add: Let_def)
qed

lemma rr_loop_success_step:
  assumes "i < n" and "rr_loop data eof n i rrs c = Some (rrs', c', None)"
  shows "\<exists>rr b. parseRR data c = Some (rr, b, None)
           \<and> rr_loop data eof n (i + 1) (rrs[i := rr]) b = Some (rrs', c', None)"
  using assms(2) assms(1)
  apply (subst (asm) rr_loop.simps)
  apply (auto simp: Let_def split: if_splits Option.bind_splits prod.splits)
  done

lemma rr_loop_decode:
  assumes "length rrs = n" and "i \<le> n"
  shows "rr_loop data eof n i rrs c = Some (rrs', c', None)
     \<longleftrightarrow> (\<exists>rs. decode_records data (n - i) c = Some (rs, c') \<and> rrs' = take i rrs @ rs)"
  using assms
proof (induction "n - i" arbitrary: i rrs c)
  case 0
  then have "i = n" by simp
  with "0.prems" show ?case
    by (subst rr_loop.simps) auto
next
  case (Suc k)
  from Suc.hyps(2) have i: "i < n" "k = n - (i + 1)" "n - i = Suc k" by simp_all
  show ?case
  proof
    assume "rr_loop data eof n i rrs c = Some (rrs', c', None)"
    from rr_loop_success_step [OF i(1) this] obtain rr b
      where p: "parseRR data c = Some (rr, b, None)"
        and rest: "rr_loop data eof n (i + 1) (rrs[i := rr]) b = Some (rrs', c', None)"
      by blast
    from Suc.hyps(1) [OF i(2), of "rrs[i := rr]" b] Suc.prems i(1) rest
    obtain rs where rs: "decode_records data k b = Some (rs, c')"
      and eq: "rrs' = take (i + 1) (rrs[i := rr]) @ rs"
      by (auto simp: i(2))
    from p rs have "decode_records data (n - i) c = Some (rr # rs, c')"
      by (simp add: i(3))
    moreover from eq i(1) Suc.prems(1) have "rrs' = take i rrs @ rr # rs"
      by (simp add: take_Suc_update)
    ultimately show "\<exists>rs. decode_records data (n - i) c = Some (rs, c') \<and> rrs' = take i rrs @ rs"
      by blast
  next
    assume "\<exists>rs. decode_records data (n - i) c = Some (rs, c') \<and> rrs' = take i rrs @ rs"
    then obtain rs0 where d: "decode_records data (Suc k) c = Some (rs0, c')"
      and eq: "rrs' = take i rrs @ rs0"
      by (auto simp: i(3))
    from d obtain rr b rs where p: "parseRR data c = Some (rr, b, None)"
      and rs: "decode_records data k b = Some (rs, c')" and rs0: "rs0 = rr # rs"
      by (auto split: option.splits prod.splits)
    from eq rs0 i(1) Suc.prems(1) have "rrs' = take (i + 1) (rrs[i := rr]) @ rs"
      by (simp add: take_Suc_update)
    with Suc.hyps(1) [OF i(2), of "rrs[i := rr]" b] Suc.prems i(1) rs
    have "rr_loop data eof n (i + 1) (rrs[i := rr]) b = Some (rrs', c', None)"
      by (auto simp: i(2))
    with rr_loop_step [OF i(1) p] show "rr_loop data eof n i rrs c = Some (rrs', c', None)"
      by simp
  qed
qed

lemma rr_section_decode:
  "rr_section data eof num c = Some (rrs, c', None)
     \<longleftrightarrow> decode_records data (unat num) c = Some (rrs, c')"
proof (cases "num > 0")
  case True
  with rr_loop_decode [of "replicate (unat num) zero_dnsRR" "unat num" 0 data eof c rrs c']
  show ?thesis
    by (simp add: rr_section_def)
next
  case False
  then have "num = 0" by (simp add: word_greater_zero_iff)
  then show ?thesis
    by (auto simp: rr_section_def)
qed

lemma question_all_fields:
  "q\<lparr>QName := name, Qtype := qt, Qclass := qc\<rparr> = \<lparr>QName = name, Qtype = qt, Qclass = qc\<rparr>"
  by (cases q) simp

lemma question_loop_step:
  assumes "i < n" and "length qs = n"
    and "getDomainName data c = Some (name, b, None)" and "b + 4 \<le> int (length data)"
  shows "\<exists>qt qc. Uint16_at data b = Some qt \<and> Uint16_at data (b + 2) = Some qc
     \<and> question_loop data n i qs c
       = question_loop data n (i + 1) (qs[i := \<lparr>QName = name, Qtype = qt, Qclass = qc\<rparr>]) (b + 4)"
proof -
  from getDomainName_success_start [OF assms(3)]
  have c: "c < int (length data)" and b: "0 \<le> b" by simp_all
  from b assms(4) obtain qt qc where qt: "Uint16_at data b = Some qt"
    and qc: "Uint16_at data (b + 2) = Some qc"
    by (simp add: Uint16_at_Some)
  have "question_loop data n i qs c
       = question_loop data n (i + 1) (qs[i := \<lparr>QName = name, Qtype = qt, Qclass = qc\<rparr>]) (b + 4)"
    using assms c qt qc
    by (subst question_loop.simps) (simp add: Let_def question_all_fields add.commute)
  with qt qc show ?thesis by blast
qed

lemma question_loop_success_step:
  assumes "i < n" and "question_loop data n i qs c = Some (qs', c', None)"
  shows "\<exists>name b. getDomainName data c = Some (name, b, None) \<and> b + 4 \<le> int (length data)"
  using assms(2) assms(1)
  apply (subst (asm) question_loop.simps)
  apply (auto simp: Let_def split: if_splits Option.bind_splits prod.splits)
  done

lemma question_loop_decode:
  assumes "length qs = n" and "i \<le> n"
  shows "question_loop data n i qs c = Some (qs', c', None)
     \<longleftrightarrow> (\<exists>ds. decode_questions data (n - i) c = Some (ds, c') \<and> qs' = take i qs @ ds)"
  using assms
proof (induction "n - i" arbitrary: i qs c)
  case 0
  then have "i = n" by simp
  with "0.prems" show ?case
    by (subst question_loop.simps) auto
next
  case (Suc k)
  from Suc.hyps(2) have i: "i < n" "k = n - (i + 1)" "n - i = Suc k" by simp_all
  have step: "\<exists>qt qc. Uint16_at data b = Some qt \<and> Uint16_at data (b + 2) = Some qc
     \<and> (question_loop data n i qs c = Some (qs', c', None)
        \<longleftrightarrow> (\<exists>ds. decode_questions data k (b + 4) = Some (ds, c')
              \<and> qs' = take i qs @ \<lparr>QName = name, Qtype = qt, Qclass = qc\<rparr> # ds))"
    if g: "getDomainName data c = Some (name, b, None)" and b4: "b + 4 \<le> int (length data)"
    for name b
  proof -
    from question_loop_step [OF i(1) Suc.prems(1) g b4] obtain qt qc
      where qt: "Uint16_at data b = Some qt" and qc: "Uint16_at data (b + 2) = Some qc"
        and unfold: "question_loop data n i qs c
          = question_loop data n (i + 1) (qs[i := \<lparr>QName = name, Qtype = qt, Qclass = qc\<rparr>]) (b + 4)"
      by blast
    have "length (qs[i := \<lparr>QName = name, Qtype = qt, Qclass = qc\<rparr>]) = n" "i + 1 \<le> n"
      using Suc.prems(1) i(1) by simp_all
    from Suc.hyps(1) [OF i(2) this, of "b + 4"] i(1) Suc.prems(1)
    have "question_loop data n i qs c = Some (qs', c', None)
        \<longleftrightarrow> (\<exists>ds. decode_questions data k (b + 4) = Some (ds, c')
              \<and> qs' = take i qs @ \<lparr>QName = name, Qtype = qt, Qclass = qc\<rparr> # ds)"
      unfolding unfold using i(2) by (simp add: take_Suc_update)
    with qt qc show ?thesis by blast
  qed
  show ?case
  proof
    assume run: "question_loop data n i qs c = Some (qs', c', None)"
    from question_loop_success_step [OF i(1) run] obtain name b
      where g: "getDomainName data c = Some (name, b, None)"
        and b4: "b + 4 \<le> int (length data)"
      by blast
    from step [OF g b4] run g b4
    show "\<exists>ds. decode_questions data (n - i) c = Some (ds, c') \<and> qs' = take i qs @ ds"
      by (auto simp: i(3))
  next
    assume "\<exists>ds. decode_questions data (n - i) c = Some (ds, c') \<and> qs' = take i qs @ ds"
    then obtain ds0 where d: "decode_questions data (Suc k) c = Some (ds0, c')"
      and eq: "qs' = take i qs @ ds0"
      by (auto simp: i(3))
    from d obtain name b where g: "getDomainName data c = Some (name, b, None)"
      and b4: "b + 4 \<le> int (length data)"
      by (auto split: option.splits prod.splits if_splits)
    from step [OF g b4] d eq g b4
    show "question_loop data n i qs c = Some (qs', c', None)"
      by (auto split: option.splits prod.splits)
  qed
qed

lemma parseDNSMsg_success_iff:
  "parseDNSMsg data = Some (m, None) \<longleftrightarrow> (\<exists>c. decode_message data = Some (m, c))"
proof
  assume run: "parseDNSMsg data = Some (m, None)"
  then have len: "\<not> length data < 12"
    by (auto simp: parseDNSMsg_def)
  from parseDNSMsg_success_steps [OF run]
  obtain hdr qs c1 an c2 au c3 ad c4 where hdr: "parse_header data = Some hdr"
    and q: "question_loop data (unat (question_num hdr)) 0
          (replicate (unat (question_num hdr)) zero_dnsQuestion) 12 = Some (qs, c1, None)"
    and a: "rr_section data EOFParsingAnswers (answer_num hdr) c1 = Some (an, c2, None)"
    and b: "rr_section data EOFParsingAuthorityRRs (authority_num hdr) c2 = Some (au, c3, None)"
    and d: "rr_section data EOFParsingAdditionalRRs (additional_num hdr) c3 = Some (ad, c4, None)"
    and m: "m = hdr\<lparr>question := qs, answer := an, ns := au, extra := ad\<rparr>"
    by blast
  from q have "decode_questions data (unat (question_num hdr)) 12 = Some (qs, c1)"
    using question_loop_decode [of "replicate (unat (question_num hdr)) zero_dnsQuestion"
        "unat (question_num hdr)" 0 data 12 qs c1]
    by simp
  with hdr a b d m len have "decode_message data = Some (m, c4)"
    by (simp add: decode_message_def rr_section_decode)
  then show "\<exists>c. decode_message data = Some (m, c)" by blast
next
  assume "\<exists>c. decode_message data = Some (m, c)"
  then obtain c4 where dm: "decode_message data = Some (m, c4)" by blast
  then have len: "\<not> length data < 12"
    by (auto simp: decode_message_def split: if_splits)
  from dm len obtain hdr qs c1 an c2 au c3 ad where hdr: "parse_header data = Some hdr"
    and q: "decode_questions data (unat (question_num hdr)) 12 = Some (qs, c1)"
    and a: "decode_records data (unat (answer_num hdr)) c1 = Some (an, c2)"
    and b: "decode_records data (unat (authority_num hdr)) c2 = Some (au, c3)"
    and d: "decode_records data (unat (additional_num hdr)) c3 = Some (ad, c4)"
    and m: "m = hdr\<lparr>question := qs, answer := an, ns := au, extra := ad\<rparr>"
    by (auto simp: decode_message_def split: if_splits Option.bind_splits prod.splits)
  from q have ql: "question_loop data (unat (question_num hdr)) 0
          (replicate (unat (question_num hdr)) zero_dnsQuestion) 12 = Some (qs, c1, None)"
    using question_loop_decode [of "replicate (unat (question_num hdr)) zero_dnsQuestion"
        "unat (question_num hdr)" 0 data 12 qs c1]
    by simp
  from a b d have "rr_section data EOFParsingAnswers (answer_num hdr) c1 = Some (an, c2, None)"
    "rr_section data EOFParsingAuthorityRRs (authority_num hdr) c2 = Some (au, c3, None)"
    "rr_section data EOFParsingAdditionalRRs (additional_num hdr) c3 = Some (ad, c4, None)"
    by (simp_all add: rr_section_decode)
  with hdr ql m len show "parseDNSMsg data = Some (m, None)"
    by (simp add: parseDNSMsg_def)
qed

lemma parseDNSMsg_returns:
  "\<exists>m e. parseDNSMsg data = Some (m, e)"
proof (cases "length data < 12")
  case True
  then show ?thesis by (simp add: parseDNSMsg_def)
next
  case False
  then have len: "12 \<le> length data" by simp
  then obtain hdr where hdr: "parse_header data = Some hdr"
    using parse_header_Some by blast
  from parseDNSMsg_total [OF len hdr] show ?thesis
    by blast
qed

text \<open>
  Claim C4. \<open>parseDNSMsg\<close> returns a message without an error exactly when the
  sequential decoding of the buffer succeeds, and the message is the decoded one: the
  header, then as many questions as the question count declares, then as many answer,
  authority and additional records as their counts declare, each one decoded at the offset
  where the one before ends. When the decoding fails, for instance because the buffer ends
  before all declared records are parsed, \<open>parseDNSMsg\<close> returns an error, so a message
  with fewer records than declared is never a success. On success the four sequences have
  the lengths of the four count fields, and every entry is the result of a call of
  \<open>getDomainName\<close> or \<open>parseRR\<close> that returned no error.
\<close>

theorem parseDNSMsg_counts:
  "(parseDNSMsg data = Some (m, None) \<longleftrightarrow> (\<exists>c. decode_message data = Some (m, c)))
   \<and> (decode_message data = None \<longrightarrow> (\<exists>m' e. parseDNSMsg data = Some (m', Some e)))
   \<and> (parseDNSMsg data = Some (m, None) \<longrightarrow>
         length (question m) = unat (question_num m)
       \<and> length (answer m) = unat (answer_num m)
       \<and> length (ns m) = unat (authority_num m)
       \<and> length (extra m) = unat (additional_num m)
       \<and> (\<forall>q \<in> set (question m).
            \<exists>a name b qt qc. getDomainName data a = Some (name, b, None)
              \<and> Uint16_at data b = Some qt \<and> Uint16_at data (b + 2) = Some qc
              \<and> q = \<lparr>QName = name, Qtype = qt, Qclass = qc\<rparr>)
       \<and> (\<forall>rr \<in> set (answer m) \<union> set (ns m) \<union> set (extra m).
            \<exists>a b. parseRR data a = Some (rr, b, None)))"
proof (intro conjI)
  show "parseDNSMsg data = Some (m, None) \<longleftrightarrow> (\<exists>c. decode_message data = Some (m, c))"
    by (rule parseDNSMsg_success_iff)
next
  show "decode_message data = None \<longrightarrow> (\<exists>m' e. parseDNSMsg data = Some (m', Some e))"
  proof
    assume none: "decode_message data = None"
    from parseDNSMsg_returns [of data] obtain m' e'
      where run: "parseDNSMsg data = Some (m', e')"
      by blast
    with none parseDNSMsg_success_iff [of data m'] have "e' \<noteq> None"
      by auto
    with run show "\<exists>m' e. parseDNSMsg data = Some (m', Some e)" by auto
  qed
next
  show "parseDNSMsg data = Some (m, None) \<longrightarrow>
         length (question m) = unat (question_num m)
       \<and> length (answer m) = unat (answer_num m)
       \<and> length (ns m) = unat (authority_num m)
       \<and> length (extra m) = unat (additional_num m)
       \<and> (\<forall>q \<in> set (question m).
            \<exists>a name b qt qc. getDomainName data a = Some (name, b, None)
              \<and> Uint16_at data b = Some qt \<and> Uint16_at data (b + 2) = Some qc
              \<and> q = \<lparr>QName = name, Qtype = qt, Qclass = qc\<rparr>)
       \<and> (\<forall>rr \<in> set (answer m) \<union> set (ns m) \<union> set (extra m).
            \<exists>a b. parseRR data a = Some (rr, b, None))"
    using parse_success_entries [of data m] by blast
qed

text \<open>
  The message of the test, and the same bytes cut at offset 71, behind the first of the two
  declared answers.
\<close>

theorem parseDNSMsg_counts_witness:
  "parseDNSMsg dnsMessageBytes = Some (dnsMessage, None)
   \<and> decode_message dnsMessageBytes = Some (dnsMessage, 92)
   \<and> length (question dnsMessage) = unat (question_num dnsMessage)
   \<and> length (answer dnsMessage) = unat (answer_num dnsMessage)
   \<and> decode_message (take 71 dnsMessageBytes) = None
   \<and> (\<exists>m' e. parseDNSMsg (take 71 dnsMessageBytes) = Some (m', Some e))"
proof -
  have full: "decode_message dnsMessageBytes = Some (dnsMessage, 92)"
    by code_simp
  have cut: "decode_message (take 71 dnsMessageBytes) = None"
    by code_simp
  from parseDNSMsg_counts [of dnsMessageBytes dnsMessage] full
  have run: "parseDNSMsg dnsMessageBytes = Some (dnsMessage, None)"
    by blast
  with parseDNSMsg_counts [of dnsMessageBytes dnsMessage]
  have "length (question dnsMessage) = unat (question_num dnsMessage)"
    "length (answer dnsMessage) = unat (answer_num dnsMessage)"
    by blast+
  moreover from parseDNSMsg_counts [of "take 71 dnsMessageBytes"] cut
  have "\<exists>m' e. parseDNSMsg (take 71 dnsMessageBytes) = Some (m', Some e)"
    by blast
  ultimately show ?thesis
    using full cut run by blast
qed

subsection \<open>Bounds safety\<close>

text \<open>
  The reads that would leave the buffer: what the loop body, \<open>parseRR\<close> and the
  question loop return for each of them.
\<close>

lemma gdn_body_label_exceeds:
  assumes "0 \<le> currentReadPos s" and "currentReadPos s < int (length data)"
    and "data ! nat (currentReadPos s) \<noteq> 0" and "data ! nat (currentReadPos s) AND 0xC0 = 0"
    and "int (length data) < currentReadPos s + 1 + uint (data ! nat (currentReadPos s))"
  shows "gdn_body data c s = Some (Return ('''', c, Some LabelLengthExceedsDataBuffer))"
  using assms by (simp add: gdn_body_def index_def Let_def)

lemma gdn_body_incomplete_pointer:
  assumes "0 \<le> currentReadPos s" and "currentReadPos s < int (length data)"
    and "data ! nat (currentReadPos s) AND 0xC0 = 0xC0" and "pointerFollowCount s < 10"
    and "int (length data) \<le> currentReadPos s + 1"
  shows "gdn_body data c s = Some (Return ('''', c, Some IncompletePointerOffset))"
proof -
  from assms(3) have "data ! nat (currentReadPos s) \<noteq> 0" by auto
  with assms show ?thesis
    by (simp add: gdn_body_def index_def Let_def)
qed

lemma getDomainName_at_state:
  assumes "gdn_iter data c n (gdn_init c) = Some s" and "gdn_body data c s = Some (Return r)"
  shows "getDomainName data c = Some r"
proof -
  have "getDomainName data c = gdn_loop data c s"
    unfolding getDomainName_def using assms(1) by (rule gdn_iter_loop)
  with gdn_loop_Return [OF assms(2)] show ?thesis by simp
qed

lemma copy_fresh: "length src = n \<Longrightarrow> copy (replicate n 0) src = src"
  by (simp add: copy_def)

lemma parseRR_cases:
  assumes g: "getDomainName data c = Some (name, b, e)"
  shows "(e \<noteq> None \<longrightarrow> parseRR data c = Some (zero_dnsRR\<lparr>RName := name\<rparr>, b, e))
    \<and> (e = None \<and> int (length data) < b + 10 \<longrightarrow>
         parseRR data c = Some (zero_dnsRR\<lparr>RName := name\<rparr>, b, Some InsufficientDataForRRHeader))
    \<and> (e = None \<and> b + 10 \<le> int (length data) \<longrightarrow>
         (\<exists>t cl ttl rdl. Uint16_at data b = Some t \<and> Uint16_at data (b + 2) = Some cl
            \<and> Uint32_at data (b + 4) = Some ttl \<and> Uint16_at data (b + 8) = Some rdl
            \<and> (int (length data) < b + 10 + uint rdl \<longrightarrow>
                 parseRR data c
                   = Some (\<lparr>RName = name, Rrtype = t, Class = cl, Ttl = ttl, Rdlength = rdl,
                             Data = []\<rparr>, b + 10, Some RdataLengthExceedsDataBuffer))
            \<and> (b + 10 + uint rdl \<le> int (length data) \<longrightarrow>
                 parseRR data c
                   = Some (\<lparr>RName = name, Rrtype = t, Class = cl, Ttl = ttl, Rdlength = rdl,
                             Data = take (unat rdl) (drop (nat (b + 10)) data)\<rparr>,
                           b + 10 + uint rdl, None))))"
proof (intro conjI impI)
  assume "e \<noteq> None"
  with g show "parseRR data c = Some (zero_dnsRR\<lparr>RName := name\<rparr>, b, e)"
    by (auto simp: parseRR_def Let_def)
next
  assume "e = None \<and> int (length data) < b + 10"
  with g show "parseRR data c
      = Some (zero_dnsRR\<lparr>RName := name\<rparr>, b, Some InsufficientDataForRRHeader)"
    by (simp add: parseRR_def Let_def)
next
  assume a: "e = None \<and> b + 10 \<le> int (length data)"
  with g have g': "getDomainName data c = Some (name, b, None)" by simp
  from getDomainName_success_start [OF g'] have b0: "0 \<le> b" by simp
  from b0 a obtain t cl ttl rdl where r: "Uint16_at data b = Some t"
    "Uint16_at data (b + 2) = Some cl" "Uint32_at data (b + 4) = Some ttl"
    "Uint16_at data (b + 8) = Some rdl"
    by (simp add: Uint16_at_Some Uint32_at_Some)
  have exceed: "parseRR data c
        = Some (\<lparr>RName = name, Rrtype = t, Class = cl, Ttl = ttl, Rdlength = rdl,
                  Data = []\<rparr>, b + 10, Some RdataLengthExceedsDataBuffer)"
    if "int (length data) < b + 10 + uint rdl"
    using that g' a r by (simp add: parseRR_def Let_def zero_dnsRR_def ac_simps)
  have ok: "parseRR data c
        = Some (\<lparr>RName = name, Rrtype = t, Class = cl, Ttl = ttl, Rdlength = rdl,
                  Data = take (unat rdl) (drop (nat (b + 10)) data)\<rparr>,
                b + 10 + uint rdl, None)"
    if inside: "b + 10 + uint rdl \<le> int (length data)"
  proof -
    have n: "nat (uint rdl) = unat rdl" by simp
    have "int (unat rdl) = uint rdl" by simp
    with inside b0 have "unat rdl \<le> length data - nat (b + 10)" by linarith
    then have "length (take (unat rdl) (drop (nat (b + 10)) data)) = unat rdl"
      by simp
    then have "copy (replicate (unat rdl) 0) (take (unat rdl) (drop (nat (b + 10)) data))
        = take (unat rdl) (drop (nat (b + 10)) data)"
      by (rule copy_fresh)
    with inside g' a r b0 show ?thesis
      by (simp add: parseRR_def Let_def zero_dnsRR_def slice_def ac_simps)
  qed
  from r exceed ok
  show "\<exists>t cl ttl rdl. Uint16_at data b = Some t \<and> Uint16_at data (b + 2) = Some cl
            \<and> Uint32_at data (b + 4) = Some ttl \<and> Uint16_at data (b + 8) = Some rdl
            \<and> (int (length data) < b + 10 + uint rdl \<longrightarrow>
                 parseRR data c
                   = Some (\<lparr>RName = name, Rrtype = t, Class = cl, Ttl = ttl, Rdlength = rdl,
                             Data = []\<rparr>, b + 10, Some RdataLengthExceedsDataBuffer))
            \<and> (b + 10 + uint rdl \<le> int (length data) \<longrightarrow>
                 parseRR data c
                   = Some (\<lparr>RName = name, Rrtype = t, Class = cl, Ttl = ttl, Rdlength = rdl,
                             Data = take (unat rdl) (drop (nat (b + 10)) data)\<rparr>,
                           b + 10 + uint rdl, None))"
    by blast
qed

lemma question_loop_prefix:
  assumes "decode_questions data k c = Some (ds, c')" and "i + k \<le> n" and "length qs = n"
  shows "\<exists>qs'. length qs' = n
           \<and> question_loop data n i qs c = question_loop data n (i + k) qs' c'"
  using assms
proof (induction k arbitrary: i qs c ds)
  case 0
  then show ?case by auto
next
  case (Suc k)
  from Suc.prems(1) obtain name b ds' where g: "getDomainName data c = Some (name, b, None)"
    and b4: "b + 4 \<le> int (length data)"
    and rest: "decode_questions data k (b + 4) = Some (ds', c')"
    by (auto split: option.splits prod.splits if_splits)
  from Suc.prems(2) have i: "i < n" "i + 1 + k \<le> n" by simp_all
  from question_loop_step [OF i(1) Suc.prems(3) g b4] obtain qt qc
    where unfold: "question_loop data n i qs c
          = question_loop data n (i + 1) (qs[i := \<lparr>QName = name, Qtype = qt, Qclass = qc\<rparr>]) (b + 4)"
    by blast
  have "length (qs[i := \<lparr>QName = name, Qtype = qt, Qclass = qc\<rparr>]) = n"
    using Suc.prems(3) by simp
  from Suc.IH [OF rest i(2) this] unfold show ?case
    by (simp add: add.commute add.left_commute)
qed

lemma question_loop_failure:
  assumes "i < n"
  shows "(int (length data) \<le> c \<longrightarrow>
            question_loop data n i qs c = Some (qs, c, Some EOFParsingQuestions))
       \<and> (c < int (length data) \<and> getDomainName data c = Some (name, b, Some e) \<longrightarrow>
            (\<exists>qs'. question_loop data n i qs c = Some (qs', b, Some e)))
       \<and> (getDomainName data c = Some (name, b, None) \<and> int (length data) < b + 4 \<longrightarrow>
            (\<exists>qs'. question_loop data n i qs c
                      = Some (qs', b, Some InsufficientDataForQtypeQclass)))"
proof (intro conjI impI)
  assume "int (length data) \<le> c"
  with assms show "question_loop data n i qs c = Some (qs, c, Some EOFParsingQuestions)"
    by (subst question_loop.simps) simp
next
  assume "c < int (length data) \<and> getDomainName data c = Some (name, b, Some e)"
  with assms show "\<exists>qs'. question_loop data n i qs c = Some (qs', b, Some e)"
    by (subst question_loop.simps) (simp add: Let_def)
next
  assume a: "getDomainName data c = Some (name, b, None) \<and> int (length data) < b + 4"
  then have "c < int (length data)"
    using getDomainName_success_start by blast
  with a assms
  show "\<exists>qs'. question_loop data n i qs c = Some (qs', b, Some InsufficientDataForQtypeQclass)"
    by (subst question_loop.simps) (simp add: Let_def)
qed

lemma parseDNSMsg_question_failure:
  assumes len: "12 \<le> length data" and hdr: "parse_header data = Some hdr"
    and k: "k < unat (question_num hdr)"
    and pre: "decode_questions data k 12 = Some (ds, c)"
  shows "(int (length data) \<le> c \<longrightarrow>
            parseDNSMsg data = Some (hdr, Some EOFParsingQuestions))
       \<and> (c < int (length data) \<and> getDomainName data c = Some (name, b, Some e) \<longrightarrow>
            parseDNSMsg data = Some (hdr, Some e))
       \<and> (getDomainName data c = Some (name, b, None) \<and> int (length data) < b + 4 \<longrightarrow>
            parseDNSMsg data = Some (hdr, Some InsufficientDataForQtypeQclass))"
proof -
  let ?n = "unat (question_num hdr)"
  from question_loop_prefix [OF pre, of 0 ?n "replicate ?n zero_dnsQuestion"] k
  obtain qs' where unfold: "question_loop data ?n 0 (replicate ?n zero_dnsQuestion) 12
      = question_loop data ?n k qs' c"
    by auto
  have run: "parseDNSMsg data = Some (hdr, Some e')"
    if "question_loop data ?n k qs' c = Some (qs'', b', Some e')" for qs'' b' e'
    using that len hdr unfold by (simp add: parseDNSMsg_def)
  from question_loop_failure [OF k, of data c qs' name b e] run show ?thesis
    by blast
qed

text \<open>
  A decoding that succeeds on the first \<open>k\<close> bytes of a buffer has read these bytes
  only, so it succeeds on the whole buffer with the same result and ends inside the
  first \<open>k\<close> bytes.
\<close>

lemma take_drop_take:
  "n + a \<le> k \<Longrightarrow> take a (drop n (take k xs)) = take a (drop n xs)"
  by (simp add: drop_take min_def)

lemma gdn_body_label:
  assumes "0 \<le> currentReadPos s" and "currentReadPos s < int (length data)"
    and "data ! nat (currentReadPos s) \<noteq> 0" and "data ! nat (currentReadPos s) AND 0xC0 = 0"
    and "currentReadPos s + 1 + uint (data ! nat (currentReadPos s)) \<le> int (length data)"
  shows "gdn_body data c s = Some (Continue (s\<lparr>labels := labels s @
           [string_of_bytes (take (unat (data ! nat (currentReadPos s)))
                                  (drop (nat (currentReadPos s + 1)) data))],
           currentReadPos := currentReadPos s + 1 + uint (data ! nat (currentReadPos s))\<rparr>))"
  using assms by (simp add: gdn_body_def index_def slice_def Let_def)

lemma gdn_body_prefix:
  assumes "gdn_body (take k data) c s = Some r" and "\<forall>t. r \<noteq> Return t"
  shows "gdn_body data c s = Some r"
proof (cases r)
  case (Continue s')
  with assms have body: "gdn_body (take k data) c s = Some (Continue s')" by simp
  note f = gdn_body_Continue [OF body]
  then have pos: "0 \<le> currentReadPos s" "currentReadPos s < int (length (take k data))"
    by simp_all
  then have byte: "take k data ! nat (currentReadPos s) = data ! nat (currentReadPos s)"
    and lt: "currentReadPos s < int (length data)" "nat (currentReadPos s) < k"
    by auto
  define b where "b = data ! nat (currentReadPos s)"
  from f byte have cases: "(b \<noteq> 0 \<and> b AND 0xC0 = 0
        \<and> currentReadPos s + 1 + uint b \<le> int (length (take k data))
        \<and> s' = s\<lparr>labels := labels s @
                   [string_of_bytes (take (nat (uint b))
                      (drop (nat (currentReadPos s + 1)) (take k data)))],
                currentReadPos := currentReadPos s + 1 + uint b\<rparr>)
     \<or> (b AND 0xC0 = 0xC0 \<and> pointerFollowCount s < 10
        \<and> currentReadPos s + 1 < int (length (take k data))
        \<and> ptr_dest b (take k data ! nat (currentReadPos s + 1)) < int (length (take k data))
        \<and> s' = s\<lparr>currentReadPos := ptr_dest b (take k data ! nat (currentReadPos s + 1)),
                pointerFollowCount := Suc (pointerFollowCount s),
                posAfterFirstPointer :=
                  (if pointerFollowCount s = 0 then currentReadPos s + 2
                   else posAfterFirstPointer s)\<rparr>)"
    by (simp add: Let_def b_def)
  from cases show ?thesis
  proof (elim disjE conjE)
    assume a: "b \<noteq> 0" "b AND 0xC0 = 0"
      "currentReadPos s + 1 + uint b \<le> int (length (take k data))"
      and s': "s' = s\<lparr>labels := labels s @
                   [string_of_bytes (take (nat (uint b))
                      (drop (nat (currentReadPos s + 1)) (take k data)))],
                currentReadPos := currentReadPos s + 1 + uint b\<rparr>"
    have "currentReadPos s + 1 + int (unat b) \<le> int k" using a(3) by simp
    with pos(1) have "nat (currentReadPos s + 1) + unat b \<le> k" by linarith
    then have "take (unat b) (drop (nat (currentReadPos s + 1)) (take k data))
        = take (unat b) (drop (nat (currentReadPos s + 1)) data)"
      by (rule take_drop_take)
    moreover from a(3) have "currentReadPos s + 1 + uint b \<le> int (length data)" by simp
    ultimately show ?thesis
      using gdn_body_label [of s data c] pos lt a s' Continue by (simp add: b_def)
  next
    assume a: "b AND 0xC0 = 0xC0" "pointerFollowCount s < 10"
      "currentReadPos s + 1 < int (length (take k data))"
      "ptr_dest b (take k data ! nat (currentReadPos s + 1)) < int (length (take k data))"
      and s': "s' = s\<lparr>currentReadPos := ptr_dest b (take k data ! nat (currentReadPos s + 1)),
                pointerFollowCount := Suc (pointerFollowCount s),
                posAfterFirstPointer :=
                  (if pointerFollowCount s = 0 then currentReadPos s + 2
                   else posAfterFirstPointer s)\<rparr>"
    from a(3) pos have "take k data ! nat (currentReadPos s + 1) = data ! nat (currentReadPos s + 1)"
      and "currentReadPos s + 1 < int (length data)"
      by auto
    with a s' Continue pos show ?thesis
      using gdn_body_pointer [of s data c] by (simp add: b_def)
  qed
next
  case (Break s')
  with assms have body: "gdn_body (take k data) c s = Some (Break s')" by simp
  note f = gdn_body_Break [OF body]
  then have pos: "0 \<le> currentReadPos s" "currentReadPos s < int (length (take k data))"
    by simp_all
  then have byte: "take k data ! nat (currentReadPos s) = data ! nat (currentReadPos s)"
    and lt: "currentReadPos s < int (length data)"
    by auto
  from f byte pos lt Break show ?thesis
    by (simp add: gdn_body_def index_def)
next
  case (Return t)
  with assms show ?thesis by simp
qed

lemma gdn_loop_prefix:
  assumes "gdn_loop d c s = Some (name, off, None)" and "d = take k data"
  shows "gdn_loop data c s = Some (name, off, None)"
  using assms
proof (induction d c s rule: gdn_loop.induct)
  case (1 d c s)
  from "1.prems"(1) obtain r where r: "gdn_body d c s = Some r"
    using gdn_loop_panic [of d c s] by (cases "gdn_body d c s") auto
  show ?case
  proof (cases r)
    case (Continue s')
    with r "1.prems"(2) have "gdn_body data c s = Some (Continue s')"
      using gdn_body_prefix [of k data c s r] by simp
    moreover from r Continue "1.prems"(1) have "gdn_loop d c s' = Some (name, off, None)"
      by (simp add: gdn_loop_Continue)
    ultimately show ?thesis
      using "1.IH" [OF r Continue _ "1.prems"(2)] by (simp add: gdn_loop_Continue)
  next
    case (Break s')
    with r "1.prems"(2) have "gdn_body data c s = Some (Break s')"
      using gdn_body_prefix [of k data c s r] by simp
    with r Break "1.prems"(1) show ?thesis
      by (simp add: gdn_loop_Break)
  next
    case (Return t)
    with r "1.prems"(1) have "t = (name, off, None)"
      by (simp add: gdn_loop_Return)
    with r Return gdn_body_Return [of d c s name off None] show ?thesis
      by simp
  qed
qed

lemma getDomainName_prefix:
  "getDomainName (take k data) c = Some (name, b, None)
     \<Longrightarrow> getDomainName data c = Some (name, b, None)"
  unfolding getDomainName_def by (rule gdn_loop_prefix) simp_all

lemma Uint16_at_prefix:
  assumes "0 \<le> b" and "b + 2 \<le> int (length (take k data))"
  shows "Uint16_at (take k data) b = Uint16_at data b"
proof -
  from assms have "nat b < k" "nat (b + 1) < k" "b + 2 \<le> int (length data)"
    by auto
  with assms show ?thesis
    by (simp add: Uint16_at_Some)
qed

lemma Uint32_at_prefix:
  assumes "0 \<le> b" and "b + 4 \<le> int (length (take k data))"
  shows "Uint32_at (take k data) b = Uint32_at data b"
proof -
  from assms have "nat b < k" "nat (b + 1) < k" "nat (b + 2) < k" "nat (b + 3) < k"
    "b + 4 \<le> int (length data)"
    by auto
  with assms show ?thesis
    by (simp add: Uint32_at_Some)
qed

lemma parseRR_prefix:
  assumes "parseRR (take k data) c = Some (rr, b', None)"
  shows "parseRR data c = Some (rr, b', None) \<and> b' \<le> int (length (take k data))"
proof -
  let ?d = "take k data"
  from assms obtain name b where g: "getDomainName ?d c = Some (name, b, None)"
    by (auto simp: parseRR_def Let_def split: if_splits Option.bind_splits prod.splits)
  from getDomainName_success_start [OF g] have b0: "0 \<le> b" by simp
  note short = parseRR_cases [OF g]
  from short assms have in10: "b + 10 \<le> int (length ?d)"
    by (cases "int (length ?d) < b + 10") auto
  with short obtain t cl ttl rdl where r: "Uint16_at ?d b = Some t"
    "Uint16_at ?d (b + 2) = Some cl" "Uint32_at ?d (b + 4) = Some ttl"
    "Uint16_at ?d (b + 8) = Some rdl"
    and exceed: "int (length ?d) < b + 10 + uint rdl \<longrightarrow>
       parseRR ?d c = Some (\<lparr>RName = name, Rrtype = t, Class = cl, Ttl = ttl, Rdlength = rdl,
                             Data = []\<rparr>, b + 10, Some RdataLengthExceedsDataBuffer)"
    and ok: "b + 10 + uint rdl \<le> int (length ?d) \<longrightarrow>
       parseRR ?d c = Some (\<lparr>RName = name, Rrtype = t, Class = cl, Ttl = ttl, Rdlength = rdl,
                             Data = take (unat rdl) (drop (nat (b + 10)) ?d)\<rparr>,
                           b + 10 + uint rdl, None)"
    by auto
  from exceed assms have inside: "b + 10 + uint rdl \<le> int (length ?d)"
    by (cases "int (length ?d) < b + 10 + uint rdl") auto
  with ok assms have rr: "rr = \<lparr>RName = name, Rrtype = t, Class = cl, Ttl = ttl,
      Rdlength = rdl, Data = take (unat rdl) (drop (nat (b + 10)) ?d)\<rparr>"
    and b': "b' = b + 10 + uint rdl"
    by simp_all
  have "b + 10 + int (unat rdl) \<le> int k" using inside by simp
  with b0 have "nat (b + 10) + unat rdl \<le> k" by linarith
  then have data_eq: "take (unat rdl) (drop (nat (b + 10)) ?d)
      = take (unat rdl) (drop (nat (b + 10)) data)"
    by (rule take_drop_take)
  from r b0 in10 have r': "Uint16_at data b = Some t"
    "Uint16_at data (b + 2) = Some cl" "Uint32_at data (b + 4) = Some ttl"
    "Uint16_at data (b + 8) = Some rdl"
    using Uint16_at_prefix [of b k data] Uint16_at_prefix [of "b + 2" k data]
      Uint32_at_prefix [of "b + 4" k data] Uint16_at_prefix [of "b + 8" k data]
    by simp_all
  from inside have inside': "b + 10 + uint rdl \<le> int (length data)" by simp
  then have in10': "b + 10 \<le> int (length data)"
    using uint_ge_0 [of rdl] by linarith
  from parseRR_cases [OF getDomainName_prefix [OF g]] in10' inside' r'
  have "parseRR data c = Some (\<lparr>RName = name, Rrtype = t, Class = cl, Ttl = ttl,
      Rdlength = rdl, Data = take (unat rdl) (drop (nat (b + 10)) data)\<rparr>, b + 10 + uint rdl, None)"
    by auto
  with rr b' data_eq inside show ?thesis by simp
qed

lemma decode_records_prefix:
  assumes "decode_records (take k data) n c = Some (rs, c')"
    and "c \<le> int (length (take k data))"
  shows "decode_records data n c = Some (rs, c') \<and> c' \<le> int (length (take k data))"
  using assms
proof (induction n arbitrary: c rs)
  case 0
  then show ?case by simp
next
  case (Suc n)
  from Suc.prems(1) obtain rr b rs' where p: "parseRR (take k data) c = Some (rr, b, None)"
    and rest: "decode_records (take k data) n b = Some (rs', c')" and rs: "rs = rr # rs'"
    by (auto split: option.splits prod.splits)
  from parseRR_prefix [OF p] Suc.IH [OF rest] rs show ?case
    by simp
qed

lemma decode_questions_prefix:
  assumes "decode_questions (take k data) n c = Some (qs, c')"
    and "c \<le> int (length (take k data))"
  shows "decode_questions data n c = Some (qs, c') \<and> c' \<le> int (length (take k data))"
  using assms
proof (induction n arbitrary: c qs)
  case 0
  then show ?case by simp
next
  case (Suc n)
  let ?d = "take k data"
  from Suc.prems(1) obtain name b qt qc qs'
    where g: "getDomainName ?d c = Some (name, b, None)"
      and b4: "b + 4 \<le> int (length ?d)"
      and qt: "Uint16_at ?d b = Some qt" and qc: "Uint16_at ?d (b + 2) = Some qc"
      and rest: "decode_questions ?d n (b + 4) = Some (qs', c')"
      and qs: "qs = \<lparr>QName = name, Qtype = qt, Qclass = qc\<rparr> # qs'"
    by (auto split: option.splits prod.splits if_splits)
  from getDomainName_success_start [OF g] have b0: "0 \<le> b" by simp
  from qt qc b0 b4 have "Uint16_at data b = Some qt" "Uint16_at data (b + 2) = Some qc"
    using Uint16_at_prefix [of b k data] Uint16_at_prefix [of "b + 2" k data] by simp_all
  moreover from b4 have "b + 4 \<le> int (length data)" by simp
  ultimately show ?case
    using getDomainName_prefix [OF g] Suc.IH [OF rest b4] qs by simp
qed

lemma parse_header_prefix:
  assumes "12 \<le> length (take k data)"
  shows "parse_header (take k data) = parse_header data"
proof -
  from assms have "12 \<le> k" "12 \<le> length data" by simp_all
  with parse_header_Some [OF assms] parse_header_Some [of data] show ?thesis
    by simp
qed

lemma decode_message_prefix:
  assumes "decode_message (take k data) = Some (m, c)"
  shows "decode_message data = Some (m, c) \<and> c \<le> int (length (take k data))"
proof -
  let ?d = "take k data"
  from assms have len: "12 \<le> length ?d"
    by (auto simp: decode_message_def split: if_splits)
  then have len': "12 \<le> length data" by simp
  from assms len obtain hdr qs c1 an c2 au c3 ad where hdr: "parse_header ?d = Some hdr"
    and q: "decode_questions ?d (unat (question_num hdr)) 12 = Some (qs, c1)"
    and a: "decode_records ?d (unat (answer_num hdr)) c1 = Some (an, c2)"
    and b: "decode_records ?d (unat (authority_num hdr)) c2 = Some (au, c3)"
    and d: "decode_records ?d (unat (additional_num hdr)) c3 = Some (ad, c)"
    and m: "m = hdr\<lparr>question := qs, answer := an, ns := au, extra := ad\<rparr>"
    by (auto simp: decode_message_def split: if_splits Option.bind_splits prod.splits)
  from len have start: "12 \<le> int (length ?d)" by simp
  note q' = decode_questions_prefix [OF q start]
  note a' = decode_records_prefix [OF a conjunct2 [OF q']]
  note b' = decode_records_prefix [OF b conjunct2 [OF a']]
  note d' = decode_records_prefix [OF d conjunct2 [OF b']]
  from hdr have "parse_header data = Some hdr"
    using parse_header_prefix [OF len] by simp
  with q' a' b' d' m len' show ?thesis
    by (simp add: decode_message_def)
qed

lemma parseDNSMsg_truncated:
  assumes "decode_message data = Some (m, int (length data))" and "k < length data"
  shows "\<exists>m' e. parseDNSMsg (take k data) = Some (m', Some e)"
proof -
  from parseDNSMsg_returns [of "take k data"] obtain m' e'
    where run: "parseDNSMsg (take k data) = Some (m', e')"
    by blast
  have "e' \<noteq> None"
  proof
    assume "e' = None"
    with run parseDNSMsg_success_iff [of "take k data" m'] obtain c
      where "decode_message (take k data) = Some (m', c)"
      by auto
    from decode_message_prefix [OF this] assms show False
      by simp
  qed
  with run show ?thesis by auto
qed

text \<open>
  Claim C5. In the model every index and slice expression of \<open>getDomainName\<close>,
  \<open>parseRR\<close> and \<open>parseDNSMsg\<close> yields \<open>None\<close> when it is out of range, as the Go
  run time would panic, and \<open>None\<close> propagates to the result. For every buffer
  \<open>parseDNSMsg\<close> returns a message and an error value, never \<open>None\<close>, and so do
  \<open>getDomainName\<close> and \<open>parseRR\<close> from every cursor that is not negative. Each read that
  would leave the buffer gives an error instead:
  \<^item> in \<open>getDomainName\<close>, in whatever state \<open>s\<close> the loop has reached: a length byte at or
    behind the end of the buffer, a label that ends behind it, a pointer whose second byte
    is missing, and a pointer whose destination is at or behind the end;
  \<^item> in \<open>parseRR\<close>: an error of the name is passed on, fewer than 10 bytes behind the
    name give \<open>insufficient data for RR header\<close>, a declared data length that passes the
    end gives \<open>rdata length exceeds data buffer\<close>, and otherwise the record holds
    exactly the declared number of data bytes, taken from inside the buffer;
  \<^item> in the question loop of \<open>parseDNSMsg\<close>, after \<open>k\<close> decoded questions: a cursor at
    the end of the buffer, an error of the name, and fewer than 4 bytes behind the name
    make \<open>parseDNSMsg\<close> return the header with the error;
  \<^item> for the whole message: when the sequential decoding fails at any step,
    \<open>parseDNSMsg\<close> returns an error; and when a buffer decodes and its last record ends
    at the end of the buffer, \<open>parseDNSMsg\<close> returns an error on every proper prefix of
    the buffer.
\<close>

theorem parseDNSMsg_never_panics:
  "parseDNSMsg data \<noteq> None
   \<and> (0 \<le> c \<longrightarrow> getDomainName data c \<noteq> None \<and> parseRR data c \<noteq> None)
   \<and> (\<forall>n s. gdn_iter data c n (gdn_init c) = Some s \<and> 0 \<le> currentReadPos s \<longrightarrow>
         (int (length data) \<le> currentReadPos s \<longrightarrow>
            getDomainName data c = Some ('''', c, Some ReachedEndOfDataBuffer))
       \<and> (currentReadPos s < int (length data)
            \<and> data ! nat (currentReadPos s) \<noteq> 0
            \<and> data ! nat (currentReadPos s) AND 0xC0 = 0
            \<and> int (length data) < currentReadPos s + 1 + uint (data ! nat (currentReadPos s))
          \<longrightarrow> getDomainName data c = Some ('''', c, Some LabelLengthExceedsDataBuffer))
       \<and> (currentReadPos s < int (length data)
            \<and> data ! nat (currentReadPos s) AND 0xC0 = 0xC0
            \<and> pointerFollowCount s < 10
            \<and> int (length data) \<le> currentReadPos s + 1
          \<longrightarrow> getDomainName data c = Some ('''', c, Some IncompletePointerOffset))
       \<and> (currentReadPos s + 1 < int (length data)
            \<and> data ! nat (currentReadPos s) AND 0xC0 = 0xC0
            \<and> pointerFollowCount s < 10
            \<and> int (length data) \<le> ptr_dest (data ! nat (currentReadPos s))
                                         (data ! nat (currentReadPos s + 1))
          \<longrightarrow> getDomainName data c = Some ('''', c, Some InvalidPointerDestination)))
   \<and> (\<forall>name b e. getDomainName data c = Some (name, b, e) \<longrightarrow>
         (e \<noteq> None \<longrightarrow> parseRR data c = Some (zero_dnsRR\<lparr>RName := name\<rparr>, b, e))
       \<and> (e = None \<and> int (length data) < b + 10 \<longrightarrow>
            parseRR data c
              = Some (zero_dnsRR\<lparr>RName := name\<rparr>, b, Some InsufficientDataForRRHeader))
       \<and> (e = None \<and> b + 10 \<le> int (length data) \<longrightarrow>
            (\<exists>t cl ttl rdl. Uint16_at data b = Some t \<and> Uint16_at data (b + 2) = Some cl
               \<and> Uint32_at data (b + 4) = Some ttl \<and> Uint16_at data (b + 8) = Some rdl
               \<and> (int (length data) < b + 10 + uint rdl \<longrightarrow>
                    parseRR data c
                      = Some (\<lparr>RName = name, Rrtype = t, Class = cl, Ttl = ttl,
                                Rdlength = rdl, Data = []\<rparr>,
                              b + 10, Some RdataLengthExceedsDataBuffer))
               \<and> (b + 10 + uint rdl \<le> int (length data) \<longrightarrow>
                    parseRR data c
                      = Some (\<lparr>RName = name, Rrtype = t, Class = cl, Ttl = ttl,
                                Rdlength = rdl,
                                Data = take (unat rdl) (drop (nat (b + 10)) data)\<rparr>,
                              b + 10 + uint rdl, None)))))
   \<and> (\<forall>hdr k ds a name b e.
         12 \<le> length data \<and> parse_header data = Some hdr \<and> k < unat (question_num hdr)
         \<and> decode_questions data k 12 = Some (ds, a) \<longrightarrow>
         (int (length data) \<le> a \<longrightarrow>
            parseDNSMsg data = Some (hdr, Some EOFParsingQuestions))
       \<and> (a < int (length data) \<and> getDomainName data a = Some (name, b, Some e) \<longrightarrow>
            parseDNSMsg data = Some (hdr, Some e))
       \<and> (getDomainName data a = Some (name, b, None) \<and> int (length data) < b + 4 \<longrightarrow>
            parseDNSMsg data = Some (hdr, Some InsufficientDataForQtypeQclass)))
   \<and> (decode_message data = None \<longrightarrow> (\<exists>m e. parseDNSMsg data = Some (m, Some e)))
   \<and> (\<forall>m k. decode_message data = Some (m, int (length data)) \<and> k < length data \<longrightarrow>
         (\<exists>m' e. parseDNSMsg (take k data) = Some (m', Some e)))"
proof (intro conjI allI impI)
  from parseDNSMsg_returns [of data] show "parseDNSMsg data \<noteq> None"
    by auto
next
  assume "0 \<le> c"
  from getDomainName_total [OF this, of data] show "getDomainName data c \<noteq> None"
    by auto
next
  assume "0 \<le> c"
  from parseRR_total [OF this, of data] show "parseRR data c \<noteq> None"
    by auto
next
  fix n s
  assume "gdn_iter data c n (gdn_init c) = Some s \<and> 0 \<le> currentReadPos s"
    and "int (length data) \<le> currentReadPos s"
  then show "getDomainName data c = Some ('''', c, Some ReachedEndOfDataBuffer)"
    using getDomainName_at_state [of data c n s] gdn_body_at_end [of data s c] by simp
next
  fix n s
  assume "gdn_iter data c n (gdn_init c) = Some s \<and> 0 \<le> currentReadPos s"
    and "currentReadPos s < int (length data)
            \<and> data ! nat (currentReadPos s) \<noteq> 0
            \<and> data ! nat (currentReadPos s) AND 0xC0 = 0
            \<and> int (length data) < currentReadPos s + 1 + uint (data ! nat (currentReadPos s))"
  then show "getDomainName data c = Some ('''', c, Some LabelLengthExceedsDataBuffer)"
    using getDomainName_at_state [of data c n s] gdn_body_label_exceeds [of s data c] by simp
next
  fix n s
  assume "gdn_iter data c n (gdn_init c) = Some s \<and> 0 \<le> currentReadPos s"
    and "currentReadPos s < int (length data)
            \<and> data ! nat (currentReadPos s) AND 0xC0 = 0xC0
            \<and> pointerFollowCount s < 10
            \<and> int (length data) \<le> currentReadPos s + 1"
  then show "getDomainName data c = Some ('''', c, Some IncompletePointerOffset)"
    using getDomainName_at_state [of data c n s] gdn_body_incomplete_pointer [of s data c]
    by simp
next
  fix n s
  assume "gdn_iter data c n (gdn_init c) = Some s \<and> 0 \<le> currentReadPos s"
    and "currentReadPos s + 1 < int (length data)
            \<and> data ! nat (currentReadPos s) AND 0xC0 = 0xC0
            \<and> pointerFollowCount s < 10
            \<and> int (length data) \<le> ptr_dest (data ! nat (currentReadPos s))
                                         (data ! nat (currentReadPos s + 1))"
  then show "getDomainName data c = Some ('''', c, Some InvalidPointerDestination)"
    using getDomainName_at_state [of data c n s] gdn_body_pointer [of s data c] by simp
next
  fix name b e
  assume g: "getDomainName data c = Some (name, b, e)"
  note cases = parseRR_cases [OF g]
  {
    assume "e \<noteq> None"
    with cases show "parseRR data c = Some (zero_dnsRR\<lparr>RName := name\<rparr>, b, e)"
      by blast
  next
    assume "e = None \<and> int (length data) < b + 10"
    with cases show "parseRR data c
        = Some (zero_dnsRR\<lparr>RName := name\<rparr>, b, Some InsufficientDataForRRHeader)"
      by blast
  next
    assume "e = None \<and> b + 10 \<le> int (length data)"
    with cases show "\<exists>t cl ttl rdl. Uint16_at data b = Some t \<and> Uint16_at data (b + 2) = Some cl
               \<and> Uint32_at data (b + 4) = Some ttl \<and> Uint16_at data (b + 8) = Some rdl
               \<and> (int (length data) < b + 10 + uint rdl \<longrightarrow>
                    parseRR data c
                      = Some (\<lparr>RName = name, Rrtype = t, Class = cl, Ttl = ttl,
                                Rdlength = rdl, Data = []\<rparr>,
                              b + 10, Some RdataLengthExceedsDataBuffer))
               \<and> (b + 10 + uint rdl \<le> int (length data) \<longrightarrow>
                    parseRR data c
                      = Some (\<lparr>RName = name, Rrtype = t, Class = cl, Ttl = ttl,
                                Rdlength = rdl,
                                Data = take (unat rdl) (drop (nat (b + 10)) data)\<rparr>,
                              b + 10 + uint rdl, None))"
      by blast
  }
next
  fix hdr k ds a name b e
  assume h: "12 \<le> length data \<and> parse_header data = Some hdr \<and> k < unat (question_num hdr)
         \<and> decode_questions data k 12 = Some (ds, a)"
  then have q: "(int (length data) \<le> a \<longrightarrow>
            parseDNSMsg data = Some (hdr, Some EOFParsingQuestions))
       \<and> (a < int (length data) \<and> getDomainName data a = Some (name, b, Some e) \<longrightarrow>
            parseDNSMsg data = Some (hdr, Some e))
       \<and> (getDomainName data a = Some (name, b, None) \<and> int (length data) < b + 4 \<longrightarrow>
            parseDNSMsg data = Some (hdr, Some InsufficientDataForQtypeQclass))"
    using parseDNSMsg_question_failure [of data hdr k ds a name b e] by blast
  {
    assume "int (length data) \<le> a"
    with q show "parseDNSMsg data = Some (hdr, Some EOFParsingQuestions)" by blast
  next
    assume "a < int (length data) \<and> getDomainName data a = Some (name, b, Some e)"
    with q show "parseDNSMsg data = Some (hdr, Some e)" by blast
  next
    assume "getDomainName data a = Some (name, b, None) \<and> int (length data) < b + 4"
    with q show "parseDNSMsg data = Some (hdr, Some InsufficientDataForQtypeQclass)" by blast
  }
next
  assume none: "decode_message data = None"
  from parseDNSMsg_returns [of data] obtain m' e'
    where run: "parseDNSMsg data = Some (m', e')"
    by blast
  with none parseDNSMsg_success_iff [of data m'] have "e' \<noteq> None"
    by auto
  with run show "\<exists>m e. parseDNSMsg data = Some (m, Some e)" by auto
next
  fix m k
  assume "decode_message data = Some (m, int (length data)) \<and> k < length data"
  then show "\<exists>m' e. parseDNSMsg (take k data) = Some (m', Some e)"
    using parseDNSMsg_truncated [of data m k] by blast
qed

text \<open>
  The message of the test and its prefixes of 32, 60 and 71 bytes, and a label of length 4
  with two bytes behind it.
\<close>

theorem parseDNSMsg_never_panics_witness:
  "parseDNSMsg dnsMessageBytes \<noteq> None
   \<and> (0 :: int) \<le> 34
   \<and> getDomainName dnsMessageBytes 34 \<noteq> None \<and> parseRR dnsMessageBytes 34 \<noteq> None
   \<and> getDomainName ([4] @ bytes_of ''te'') 0 = Some ('''', 0, Some LabelLengthExceedsDataBuffer)
   \<and> getDomainName (take 60 dnsMessageBytes) 34 = Some (''sub1.test.example.com'', 57, None)
   \<and> parseRR (take 60 dnsMessageBytes) 34
       = Some (zero_dnsRR\<lparr>RName := ''sub1.test.example.com''\<rparr>, 57,
               Some InsufficientDataForRRHeader)
   \<and> parseDNSMsg (take 32 dnsMessageBytes)
       = Some (dnsMessage\<lparr>question := [], answer := []\<rparr>, Some InsufficientDataForQtypeQclass)
   \<and> decode_message dnsMessageBytes = Some (dnsMessage, int (length dnsMessageBytes))
   \<and> (\<exists>m' e. parseDNSMsg (take 71 dnsMessageBytes) = Some (m', Some e))"
proof -
  note claim = parseDNSMsg_never_panics
  have "(0 :: int) \<le> 34" by simp
  with claim [of dnsMessageBytes 34]
  have w1: "parseDNSMsg dnsMessageBytes \<noteq> None
      \<and> getDomainName dnsMessageBytes 34 \<noteq> None \<and> parseRR dnsMessageBytes 34 \<noteq> None"
    by blast
  let ?L = "[4] @ bytes_of ''te''"
  have h2: "gdn_iter ?L 0 0 (gdn_init 0) = Some (gdn_init 0) \<and> 0 \<le> currentReadPos (gdn_init 0)"
    "currentReadPos (gdn_init 0) < int (length ?L)
       \<and> ?L ! nat (currentReadPos (gdn_init 0)) \<noteq> 0
       \<and> ?L ! nat (currentReadPos (gdn_init 0)) AND 0xC0 = 0
       \<and> int (length ?L) < currentReadPos (gdn_init 0) + 1
                              + uint (?L ! nat (currentReadPos (gdn_init 0)))"
    by (simp_all add: gdn_init_def bytes_of_def)
  from claim [of ?L 0] h2
  have w2: "getDomainName ?L 0 = Some ('''', 0, Some LabelLengthExceedsDataBuffer)"
    by blast
  let ?R = "take 60 dnsMessageBytes"
  have g3: "getDomainName ?R 34 = Some (''sub1.test.example.com'', 57, None)"
    by code_simp
  have l3: "None = (None :: error option) \<and> int (length ?R) < 57 + 10"
    by (simp add: dnsMessageBytes_def bytes_of_def)
  from claim [of ?R 34] g3 l3
  have w3: "parseRR ?R 34
       = Some (zero_dnsRR\<lparr>RName := ''sub1.test.example.com''\<rparr>, 57,
               Some InsufficientDataForRRHeader)"
    by blast
  let ?Q = "take 32 dnsMessageBytes"
  let ?h = "dnsMessage\<lparr>question := [], answer := []\<rparr>"
  have h4: "parse_header ?Q = Some ?h"
    by code_simp
  have g4: "getDomainName ?Q 12 = Some (''test.example.com'', 30, None)"
    by code_simp
  have l4: "12 \<le> length ?Q" "int (length ?Q) < 30 + 4"
    by (simp_all add: dnsMessageBytes_def bytes_of_def)
  have k4: "0 < unat (question_num ?h)"
    by (simp add: dnsMessage_def)
  have d4: "decode_questions ?Q 0 12 = Some ([], 12)"
    by simp
  from claim [of ?Q 0] h4 g4 k4 d4 l4
  have w4: "parseDNSMsg ?Q = Some (?h, Some InsufficientDataForQtypeQclass)"
    by blast
  have l5: "int (length dnsMessageBytes) = 92" "71 < length dnsMessageBytes"
    by (simp_all add: dnsMessageBytes_def bytes_of_def)
  have d5: "decode_message dnsMessageBytes = Some (dnsMessage, int (length dnsMessageBytes))"
    unfolding l5 by code_simp
  from claim [of dnsMessageBytes 0] d5 l5(2)
  have w5: "\<exists>m' e. parseDNSMsg (take 71 dnsMessageBytes) = Some (m', Some e)"
    by blast
  from w1 w2 g3 w3 w4 d5 w5 show ?thesis by simp
qed

subsection \<open>The reference message\<close>

text \<open>
  Claim C6. The message of \<open>TestParseDNSMsgWithCompression\<close> decodes to id
  \<open>0x1234\<close>; response, recursion desired and recursion available set, opcode and
  rcode 0; one question \<open>test.example.com\<close> of type 1 and class 1; two answers
  \<open>sub1.test.example.com\<close> and \<open>sub2.test.example.com\<close> (the second one with its
  suffix behind a pointer to offset 12), both of type 1, class 1, TTL 225 and rdlength 4,
  with the data bytes 192.0.2.1 and 192.0.2.2; no authority and no additional records.
\<close>

theorem parseDNSMsg_reference_message:
  "parseDNSMsg dnsMessageBytes =
     Some (\<lparr>id' = 0x1234, response = True, opcode = 0, authoritative = False,
            truncated = False, recursion_desired = True, recursion_available = True,
            rcode = 0, question_num = 1, answer_num = 2, authority_num = 0,
            additional_num = 0,
            question = [\<lparr>QName = ''test.example.com'', Qtype = 1, Qclass = 1\<rparr>],
            answer =
              [\<lparr>RName = ''sub1.test.example.com'', Rrtype = 1, Class = 1, Ttl = 225,
                 Rdlength = 4, Data = [192, 0, 2, 1]\<rparr>,
               \<lparr>RName = ''sub2.test.example.com'', Rrtype = 1, Class = 1, Ttl = 225,
                 Rdlength = 4, Data = [192, 0, 2, 2]\<rparr>],
            ns = [], extra = []\<rparr>,
           None)"
  by code_simp

end
